theory Spec2Isabelle
  imports Main
begin

section \<open>Object store\<close>

text \<open>
  Python objects have identity and are mutated in place. Node objects live in an explicit
  store: an address stands for the identity of a node (\<open>is\<close> is equality of addresses), a
  reference is an address or \<open>None\<close>, and \<open>Node(...)\<close> takes the next free address, so a new
  node is distinct from every node made before.
\<close>

type_synonym addr = nat
type_synonym ref = "addr option"

text \<open>\<open>class Node\<close> of single.py (fields \<open>value\<close>, \<open>next_node\<close>); \<open>class Node\<close> of
  pylinked.py has the same two fields and \<open>last_node\<close>, so it is the extension.\<close>

record 'a Node =
  node_value :: 'a
  next_node :: ref

record 'a DNode = "'a Node" +
  last_node :: ref

record 'n heap =
  cells :: "addr \<Rightarrow> 'n"
  next_free :: addr

definition alloc :: "'n heap \<Rightarrow> 'n \<Rightarrow> 'n heap" where
  "alloc h nd = h\<lparr>cells := (cells h)(next_free h := nd), next_free := Suc (next_free h)\<rparr>"

definition set_next :: "('a, 'z) Node_scheme heap \<Rightarrow> addr \<Rightarrow> ref \<Rightarrow> ('a, 'z) Node_scheme heap" where
  "set_next h a r = h\<lparr>cells := (cells h)(a := (cells h a)\<lparr>next_node := r\<rparr>)\<rparr>"

definition set_last :: "'a DNode heap \<Rightarrow> addr \<Rightarrow> ref \<Rightarrow> 'a DNode heap" where
  "set_last h a r = h\<lparr>cells := (cells h)(a := (cells h a)\<lparr>last_node := r\<rparr>)\<rparr>"

definition set_value :: "('a, 'z) Node_scheme heap \<Rightarrow> addr \<Rightarrow> 'a \<Rightarrow> ('a, 'z) Node_scheme heap" where
  "set_value h a v = h\<lparr>cells := (cells h)(a := (cells h a)\<lparr>node_value := v\<rparr>)\<rparr>"

text \<open>The fields \<open>_length\<close>, \<open>head\<close>, \<open>tail\<close> of a \<open>SinglyLinked\<close> or \<open>Double\<close> object.\<close>

record Linked =
  length_attr :: int
  head :: ref
  tail :: ref

datatype error = IndexError | AttributeError | ValueError | TypeError

text \<open>An index argument is an integer or a slice object; the argument of \<open>insert_after\<close>,
  \<open>insert_before\<close> and \<open>remove\<close> is a node or an index.\<close>

datatype index = Idx int | Slice

datatype node_or_index = ByNode addr | ByIndex index

text \<open>An operation ends by returning (\<open>Inr\<close>) or raising (\<open>Inl\<close>); either way it leaves a
  store and a list object behind, which are part of the result. An operation that loops
  over the nodes may run forever on a cyclic chain: its result is then \<open>None\<close>.\<close>

type_synonym ('r, 'n) result = "(error + 'r) \<times> 'n heap \<times> Linked"

section \<open>Code shared by both containers\<close>

text \<open>\<open>__iter__\<close>, \<open>iter_values\<close>, \<open>__len__\<close>, \<open>get_next\<close>, \<open>__getitem__\<close> and \<open>__setitem__\<close> are
  the same code in single.py and pylinked.py (only the text of the error messages
  differs), so one definition, polymorphic in the extension of the node record, embeds
  both.\<close>

text \<open>\<open>__iter__\<close>: the nodes from \<open>node\<close> on, following \<open>next_node\<close> until \<open>None\<close>.\<close>

partial_function (option) iter_from :: "('a, 'z) Node_scheme heap \<Rightarrow> ref \<Rightarrow> addr list option" where
  "iter_from h node =
     (case node of
        None \<Rightarrow> Some []
      | Some a \<Rightarrow> Option.bind (iter_from h (next_node (cells h a))) (\<lambda>rest. Some (a # rest)))"

definition iter :: "('a, 'z) Node_scheme heap \<Rightarrow> Linked \<Rightarrow> addr list option" where
  "iter h L = iter_from h (head L)"

definition iter_values :: "('a, 'z) Node_scheme heap \<Rightarrow> Linked \<Rightarrow> 'a list option" where
  "iter_values h L = map_option (map (\<lambda>a. node_value (cells h a))) (iter h L)"

text \<open>The built-in \<open>len(self)\<close>: it calls \<open>__len__\<close>, which returns \<open>_length\<close>, and raises
  \<open>ValueError\<close> when that is negative.\<close>

definition len :: "Linked \<Rightarrow> error + int" where
  "len L = (if length_attr L < 0 then Inl ValueError else Inr (length_attr L))"

definition get_next :: "('a, 'z) Node_scheme heap \<Rightarrow> addr \<Rightarrow> ref" where
  "get_next h known_node = next_node (cells h known_node)"

text \<open>The loop \<open>for i, node in enumerate(self): if i == index: ...\<close> of \<open>__getitem__\<close> and
  \<open>__setitem__\<close>: the node at which the test succeeds, or \<open>None\<close> when the iteration ends.\<close>

partial_function (option) enumerate_find ::
  "('a, 'z) Node_scheme heap \<Rightarrow> ref \<Rightarrow> int \<Rightarrow> int \<Rightarrow> ref option" where
  "enumerate_find h node i index =
     (case node of
        None \<Rightarrow> Some None
      | Some a \<Rightarrow> if i = index then Some (Some a)
                  else enumerate_find h (next_node (cells h a)) (i + 1) index)"

definition getitem :: "('a, 'z) Node_scheme heap \<Rightarrow> Linked \<Rightarrow> index \<Rightarrow> (error + addr) option" where
  "getitem h L index =
     (case index of
        Slice \<Rightarrow> Some (Inl IndexError)
      | Idx i \<Rightarrow>
          if tail L \<noteq> None \<and> i = - 1 then Some (Inr (the (tail L)))
          else if i < - 1 then Some (Inl IndexError)
          else (case enumerate_find h (head L) 0 i of
                  None \<Rightarrow> None
                | Some None \<Rightarrow> Some (Inl IndexError)
                | Some (Some node) \<Rightarrow> Some (Inr node)))"

definition setitem ::
  "('a, 'z) Node_scheme heap \<Rightarrow> Linked \<Rightarrow> index \<Rightarrow> 'a \<Rightarrow> (unit, ('a, 'z) Node_scheme) result option" where
  "setitem h L index v =
     (case index of
        Slice \<Rightarrow> Some (Inl IndexError, h, L)
      | Idx i \<Rightarrow>
          if tail L \<noteq> None \<and> i = - 1 then Some (Inr (), set_value h (the (tail L)) v, L)
          else if i < - 1 then Some (Inl IndexError, h, L)
          else (case enumerate_find h (head L) 0 i of
                  None \<Rightarrow> None
                | Some None \<Rightarrow> Some (Inl IndexError, h, L)
                | Some (Some node) \<Rightarrow> Some (Inr (), set_value h node v, L)))"











section \<open>SinglyLinked (single.py)\<close>

definition empty_list :: Linked where
  "empty_list = \<lparr>length_attr = 0, head = None, tail = None\<rparr>"

text \<open>\<open>self.tail.next_node = self.tail = new_node\<close> assigns its targets from left to
  right: first the \<open>next_node\<close> of the old tail, then \<open>self.tail\<close>.\<close>

definition SinglyLinked_append_tail :: "'a \<Rightarrow> 'a Node heap \<Rightarrow> Linked \<Rightarrow> (unit, 'a Node) result" where
  "SinglyLinked_append_tail new_value h L =
     (let new_node = next_free h;
          h1 = alloc h \<lparr>node_value = new_value, next_node = None\<rparr>
      in if head L = None
         then (Inr (), h1, L\<lparr>head := Some new_node, tail := Some new_node, length_attr := length_attr L + 1\<rparr>)
         else (case tail L of
                 None \<Rightarrow> (Inl AttributeError, h1, L)
               | Some t \<Rightarrow> (Inr (), set_next h1 t (Some new_node),
                            L\<lparr>tail := Some new_node, length_attr := length_attr L + 1\<rparr>)))"

definition SinglyLinked_append_head :: "'a \<Rightarrow> 'a Node heap \<Rightarrow> Linked \<Rightarrow> (unit, 'a Node) result" where
  "SinglyLinked_append_head new_value h L =
     (let new_node = next_free h;
          h1 = alloc h \<lparr>node_value = new_value, next_node = None\<rparr>
      in if head L = None
         then (Inr (), h1, L\<lparr>head := Some new_node, tail := Some new_node, length_attr := length_attr L + 1\<rparr>)
         else (Inr (), set_next h1 new_node (head L),
               L\<lparr>head := Some new_node, length_attr := length_attr L + 1\<rparr>))"

fun SinglyLinked_extend :: "'a list \<Rightarrow> 'a Node heap \<Rightarrow> Linked \<Rightarrow> (unit, 'a Node) result" where
  "SinglyLinked_extend [] h L = (Inr (), h, L)"
| "SinglyLinked_extend (v # values) h L =
     (case SinglyLinked_append_tail v h L of
        (Inl e, h1, L1) \<Rightarrow> (Inl e, h1, L1)
      | (Inr _, h1, L1) \<Rightarrow> SinglyLinked_extend values h1 L1)"

definition SinglyLinked_init :: "'a list \<Rightarrow> 'a Node heap \<Rightarrow> (unit, 'a Node) result" where
  "SinglyLinked_init values h = SinglyLinked_extend values h empty_list"

text \<open>\<open>insert_after\<close>: for a node the attribute access in the \<open>try\<close> block succeeds. For an
  index it raises \<open>AttributeError\<close> before anything is done, and the handler evaluates
  \<open>Node(value, self[index].next_node)\<close> and then \<open>self[index]\<close> a second time as the target
  of the assignment.\<close>

definition SinglyLinked_insert_after ::
  "node_or_index \<Rightarrow> 'a \<Rightarrow> 'a Node heap \<Rightarrow> Linked \<Rightarrow> (unit, 'a Node) result option" where
  "SinglyLinked_insert_after node_or_index v h L =
     (case node_or_index of
        ByNode a \<Rightarrow>
          (let new_node = next_free h;
               h1 = alloc h \<lparr>node_value = v, next_node = next_node (cells h a)\<rparr>
           in Some (Inr (), set_next h1 a (Some new_node), L\<lparr>length_attr := length_attr L + 1\<rparr>))
      | ByIndex index \<Rightarrow>
          (case getitem h L index of
             None \<Rightarrow> None
           | Some (Inl e) \<Rightarrow> Some (Inl e, h, L)
           | Some (Inr n) \<Rightarrow>
               (let new_node = next_free h;
                    h1 = alloc h \<lparr>node_value = v, next_node = next_node (cells h n)\<rparr>
                in case getitem h1 L index of
                     None \<Rightarrow> None
                   | Some (Inl e) \<Rightarrow> Some (Inl e, h1, L)
                   | Some (Inr m) \<Rightarrow>
                       Some (Inr (), set_next h1 m (Some new_node), L\<lparr>length_attr := length_attr L + 1\<rparr>))))"

text \<open>The loop of \<open>_remove_by_node\<close>: the first node of the list whose \<open>next_node\<close> is the
  node to remove, or \<open>None\<close> when the iteration ends (the \<open>else\<close> of the \<open>for\<close>).\<close>

partial_function (option) find_pred :: "('a, 'z) Node_scheme heap \<Rightarrow> ref \<Rightarrow> addr \<Rightarrow> ref option" where
  "find_pred h node node_to_remove =
     (case node of
        None \<Rightarrow> Some None
      | Some a \<Rightarrow> if next_node (cells h a) = Some node_to_remove then Some (Some a)
                  else find_pred h (next_node (cells h a)) node_to_remove)"

definition SinglyLinked_remove_by_node ::
  "addr \<Rightarrow> 'a Node heap \<Rightarrow> Linked \<Rightarrow> (unit, 'a Node) result option" where
  "SinglyLinked_remove_by_node node_to_remove h L =
     (if Some node_to_remove = head L
      then (let node = next_node (cells h node_to_remove);
                L1 = L\<lparr>head := node\<rparr>
            in Some (Inr (), h, if Some node_to_remove = tail L1 then L1\<lparr>tail := node\<rparr> else L1))
      else (case find_pred h (head L) node_to_remove of
              None \<Rightarrow> None
            | Some None \<Rightarrow> Some (Inl ValueError, h, L)
            | Some (Some node) \<Rightarrow>
                (let h1 = set_next h node (next_node (cells h node_to_remove))
                 in Some (Inr (), h1, if Some node_to_remove = tail L then L\<lparr>tail := Some node\<rparr> else L))))"

text \<open>\<open>_remove_by_index\<close>. It starts with \<open>highest_index = len(self)-1\<close>. A slice is neither
  \<open>== -1\<close> nor \<open>== 0\<close>, and \<open>index <= highest_index\<close> between a slice and an integer raises
  \<open>TypeError\<close> (Python 3).\<close>

definition SinglyLinked_remove_by_index ::
  "index \<Rightarrow> 'a Node heap \<Rightarrow> Linked \<Rightarrow> (unit, 'a Node) result option" where
  "SinglyLinked_remove_by_index index h L =
     (case len L of
        Inl e \<Rightarrow> Some (Inl e, h, L)
      | Inr n \<Rightarrow>
     (case index of
        Slice \<Rightarrow> Some (Inl TypeError, h, L)
      | Idx i0 \<Rightarrow>
          (let highest_index = n - 1;
               i = (if i0 = - 1 then highest_index else i0)
           in if i = 0
              then (case head L of
                      None \<Rightarrow> Some (Inl AttributeError, h, L)
                    | Some hd_node \<Rightarrow>
                        (let node = next_node (cells h hd_node);
                             L1 = L\<lparr>head := node\<rparr>
                         in Some (Inr (), h, if i = highest_index then L1\<lparr>tail := node\<rparr> else L1)))
              else if i \<le> highest_index
              then (case getitem h L (Idx (i - 1)) of
                      None \<Rightarrow> None
                    | Some (Inl e) \<Rightarrow> Some (Inl e, h, L)
                    | Some (Inr node) \<Rightarrow>
                        (case get_next h node of
                           None \<Rightarrow> Some (Inl AttributeError, h, L)
                         | Some nx \<Rightarrow>
                             (let h1 = set_next h node (next_node (cells h nx))
                              in Some (Inr (), h1, if i = highest_index then L\<lparr>tail := Some node\<rparr> else L))))
              else Some (Inl IndexError, h, L))))"

definition SinglyLinked_remove ::
  "node_or_index \<Rightarrow> 'a Node heap \<Rightarrow> Linked \<Rightarrow> (unit, 'a Node) result option" where
  "SinglyLinked_remove node_or_index h L =
     (case (case node_or_index of
              ByNode a \<Rightarrow> SinglyLinked_remove_by_node a h L
            | ByIndex index \<Rightarrow> SinglyLinked_remove_by_index index h L) of
        None \<Rightarrow> None
      | Some (Inl e, h1, L1) \<Rightarrow> Some (Inl e, h1, L1)
      | Some (Inr _, h1, L1) \<Rightarrow> Some (Inr (), h1, L1\<lparr>length_attr := length_attr L1 - 1\<rparr>))"

section \<open>Double (pylinked.py)\<close>

text \<open>\<open>Node(value, last_link, next_link)\<close>.\<close>

definition DNode_init :: "'a \<Rightarrow> ref \<Rightarrow> ref \<Rightarrow> 'a DNode" where
  "DNode_init v last_link next_link = \<lparr>node_value = v, next_node = next_link, last_node = last_link\<rparr>"

text \<open>\<open>self.tail.next_node, new_node.last_node = new_node, self.tail\<close> assigns the first
  target, then the second.\<close>

definition Double_append_tail :: "'a \<Rightarrow> 'a DNode heap \<Rightarrow> Linked \<Rightarrow> (unit, 'a DNode) result" where
  "Double_append_tail new_value h L =
     (let new_node = next_free h;
          h1 = alloc h (DNode_init new_value None None)
      in if head L = None
         then (Inr (), h1, L\<lparr>head := Some new_node, tail := Some new_node, length_attr := length_attr L + 1\<rparr>)
         else (case tail L of
                 None \<Rightarrow> (Inl AttributeError, h1, L)
               | Some t \<Rightarrow> (Inr (), set_last (set_next h1 t (Some new_node)) new_node (Some t),
                            L\<lparr>tail := Some new_node, length_attr := length_attr L + 1\<rparr>)))"

definition Double_append_head :: "'a \<Rightarrow> 'a DNode heap \<Rightarrow> Linked \<Rightarrow> (unit, 'a DNode) result" where
  "Double_append_head new_value h L =
     (let new_node = next_free h;
          h1 = alloc h (DNode_init new_value None None)
      in case head L of
           None \<Rightarrow> (Inr (), h1, L\<lparr>head := Some new_node, tail := Some new_node, length_attr := length_attr L + 1\<rparr>)
         | Some hd_node \<Rightarrow>
             (Inr (), set_next (set_last h1 hd_node (Some new_node)) new_node (Some hd_node),
              L\<lparr>head := Some new_node, length_attr := length_attr L + 1\<rparr>))"

fun Double_extend :: "'a list \<Rightarrow> 'a DNode heap \<Rightarrow> Linked \<Rightarrow> (unit, 'a DNode) result" where
  "Double_extend [] h L = (Inr (), h, L)"
| "Double_extend (v # values) h L =
     (case Double_append_tail v h L of
        (Inl e, h1, L1) \<Rightarrow> (Inl e, h1, L1)
      | (Inr _, h1, L1) \<Rightarrow> Double_extend values h1 L1)"

definition Double_init :: "'a list \<Rightarrow> 'a DNode heap \<Rightarrow> (unit, 'a DNode) result" where
  "Double_init values h = Double_extend values h empty_list"

text \<open>\<open>node = x if isinstance(x, Node) else self[x]\<close>.\<close>

definition node_of :: "'a DNode heap \<Rightarrow> Linked \<Rightarrow> node_or_index \<Rightarrow> (error + addr) option" where
  "node_of h L x = (case x of ByNode a \<Rightarrow> Some (Inr a) | ByIndex index \<Rightarrow> getitem h L index)"

text \<open>The body of \<open>insert_after\<close> once \<open>node\<close> is known.\<close>

definition Double_insert_after_node :: "addr \<Rightarrow> 'a \<Rightarrow> 'a DNode heap \<Rightarrow> Linked \<Rightarrow> (unit, 'a DNode) result" where
  "Double_insert_after_node node v h L =
     (let new_node = next_free h;
          h1 = alloc h (DNode_init v (Some node) (next_node (cells h node)))
      in if Some node = tail L
         then (Inr (), set_next h1 node (Some new_node),
               L\<lparr>tail := Some new_node, length_attr := length_attr L + 1\<rparr>)
         else (case next_node (cells h1 node) of
                 None \<Rightarrow> (Inl AttributeError, h1, L)
               | Some nx \<Rightarrow>
                   (Inr (), set_next (set_last h1 nx (Some new_node)) node (Some new_node),
                    L\<lparr>length_attr := length_attr L + 1\<rparr>)))"

definition Double_insert_after ::
  "node_or_index \<Rightarrow> 'a \<Rightarrow> 'a DNode heap \<Rightarrow> Linked \<Rightarrow> (unit, 'a DNode) result option" where
  "Double_insert_after after v h L =
     (case node_of h L after of
        None \<Rightarrow> None
      | Some (Inl e) \<Rightarrow> Some (Inl e, h, L)
      | Some (Inr node) \<Rightarrow> Some (Double_insert_after_node node v h L))"

definition Double_insert_before_node :: "addr \<Rightarrow> 'a \<Rightarrow> 'a DNode heap \<Rightarrow> Linked \<Rightarrow> (unit, 'a DNode) result" where
  "Double_insert_before_node node v h L =
     (let new_node = next_free h;
          h1 = alloc h (DNode_init v (last_node (cells h node)) (Some node))
      in if Some node = head L
         then (Inr (), set_last h1 node (Some new_node),
               L\<lparr>head := Some new_node, length_attr := length_attr L + 1\<rparr>)
         else (case last_node (cells h1 node) of
                 None \<Rightarrow> (Inl AttributeError, h1, L)
               | Some pv \<Rightarrow>
                   (Inr (), set_last (set_next h1 pv (Some new_node)) node (Some new_node),
                    L\<lparr>length_attr := length_attr L + 1\<rparr>)))"

definition Double_insert_before ::
  "node_or_index \<Rightarrow> 'a \<Rightarrow> 'a DNode heap \<Rightarrow> Linked \<Rightarrow> (unit, 'a DNode) result option" where
  "Double_insert_before before v h L =
     (case node_of h L before of
        None \<Rightarrow> None
      | Some (Inl e) \<Rightarrow> Some (Inl e, h, L)
      | Some (Inr node) \<Rightarrow> Some (Double_insert_before_node node v h L))"

text \<open>The body of \<open>remove\<close> once \<open>node\<close> is known: the first \<open>if\<close> relinks the predecessor
  or moves \<open>head\<close>, the second relinks the successor or moves \<open>tail\<close>; an attribute access
  on \<open>None\<close> raises at the statement where it happens.\<close>

definition Double_remove_node :: "addr \<Rightarrow> 'a DNode heap \<Rightarrow> Linked \<Rightarrow> (unit, 'a DNode) result" where
  "Double_remove_node node h L =
     (case (if Some node \<noteq> head L
            then (case last_node (cells h node) of
                    None \<Rightarrow> Inl AttributeError
                  | Some pv \<Rightarrow> Inr (set_next h pv (next_node (cells h node)), L))
            else Inr (h, L\<lparr>head := next_node (cells h node)\<rparr>)) of
        Inl e \<Rightarrow> (Inl e, h, L)
      | Inr (h1, L1) \<Rightarrow>
          (if Some node \<noteq> tail L1
           then (case next_node (cells h1 node) of
                   None \<Rightarrow> (Inl AttributeError, h1, L1)
                 | Some nx \<Rightarrow>
                     (Inr (), set_last h1 nx (last_node (cells h1 node)),
                      L1\<lparr>length_attr := length_attr L1 - 1\<rparr>))
           else (Inr (), h1, L1\<lparr>tail := last_node (cells h1 node), length_attr := length_attr L1 - 1\<rparr>)))"

definition Double_remove ::
  "node_or_index \<Rightarrow> 'a DNode heap \<Rightarrow> Linked \<Rightarrow> (unit, 'a DNode) result option" where
  "Double_remove to_remove h L =
     (case node_of h L to_remove of
        None \<Rightarrow> None
      | Some (Inl e) \<Rightarrow> Some (Inl e, h, L)
      | Some (Inr node) \<Rightarrow> Some (Double_remove_node node h L))"

definition get_previous :: "'a DNode heap \<Rightarrow> addr \<Rightarrow> ref" where
  "get_previous h known_node = last_node (cells h known_node)"

text \<open>\<open>iter_reverse\<close>: the nodes from \<open>node\<close> backwards, following \<open>last_node\<close>.\<close>

partial_function (option) iter_reverse_from :: "'a DNode heap \<Rightarrow> ref \<Rightarrow> addr list option" where
  "iter_reverse_from h node =
     (case node of
        None \<Rightarrow> Some []
      | Some a \<Rightarrow> Option.bind (iter_reverse_from h (last_node (cells h a))) (\<lambda>rest. Some (a # rest)))"

definition iter_reverse :: "'a DNode heap \<Rightarrow> Linked \<Rightarrow> addr list option" where
  "iter_reverse h L = iter_reverse_from h (tail L)"

text \<open>\<open>Double.__eq__\<close>. The other operand has the attribute \<open>head\<close> (a list) or has not, in
  which case the \<open>AttributeError\<close> is caught and the answer is \<open>False\<close>. The \<open>while True\<close> loop
  runs outside of the \<open>try\<close>.\<close>

datatype other = A_list Linked | Not_a_list

partial_function (option) eq_loop ::
  "'a DNode heap \<Rightarrow> Linked \<Rightarrow> Linked \<Rightarrow> ref \<Rightarrow> ref \<Rightarrow> (error + bool) option" where
  "eq_loop h self other node other_node =
     (case node of
        None \<Rightarrow> Some (Inl AttributeError)
      | Some n \<Rightarrow>
          (case other_node of
             None \<Rightarrow> Some (Inl AttributeError)
           | Some m \<Rightarrow>
               if node_value (cells h n) \<noteq> node_value (cells h m) then Some (Inr False)
               else if node = tail self \<and> other_node = tail other then Some (Inr True)
               else if get_next h n = None \<or> get_next h m = None then Some (Inr False)
               else eq_loop h self other (get_next h n) (get_next h m)))"

definition Double_eq :: "'a DNode heap \<Rightarrow> Linked \<Rightarrow> other \<Rightarrow> (error + bool) option" where
  "Double_eq h self other =
     (case other of
        Not_a_list \<Rightarrow> Some (Inr False)
      | A_list other_list \<Rightarrow> eq_loop h self other_list (head self) (head other_list))"

section \<open>Calls and reachable lists\<close>

text \<open>The operations of a container as values, and what a call does to the store and the
  list. \<open>SinglyLinked\<close> has no method \<open>insert_before\<close>: calling it raises \<open>AttributeError\<close>.\<close>

datatype 'a call =
    Append_tail 'a
  | Append_head 'a
  | Extend "'a list"
  | Insert_after node_or_index 'a
  | Insert_before node_or_index 'a
  | Remove node_or_index
  | Getitem index
  | Setitem index 'a

definition getitem_call ::
  "('a, 'z) Node_scheme heap \<Rightarrow> Linked \<Rightarrow> index \<Rightarrow> (unit, ('a, 'z) Node_scheme) result option" where
  "getitem_call h L index =
     (case getitem h L index of
        None \<Rightarrow> None
      | Some (Inl e) \<Rightarrow> Some (Inl e, h, L)
      | Some (Inr node) \<Rightarrow> Some (Inr (), h, L))"

definition SinglyLinked_call :: "'a call \<Rightarrow> 'a Node heap \<Rightarrow> Linked \<Rightarrow> (unit, 'a Node) result option" where
  "SinglyLinked_call c h L =
     (case c of
        Append_tail v \<Rightarrow> Some (SinglyLinked_append_tail v h L)
      | Append_head v \<Rightarrow> Some (SinglyLinked_append_head v h L)
      | Extend vs \<Rightarrow> Some (SinglyLinked_extend vs h L)
      | Insert_after x v \<Rightarrow> SinglyLinked_insert_after x v h L
      | Insert_before x v \<Rightarrow> Some (Inl AttributeError, h, L)
      | Remove x \<Rightarrow> SinglyLinked_remove x h L
      | Getitem index \<Rightarrow> getitem_call h L index
      | Setitem index v \<Rightarrow> setitem h L index v)"

definition Double_call :: "'a call \<Rightarrow> 'a DNode heap \<Rightarrow> Linked \<Rightarrow> (unit, 'a DNode) result option" where
  "Double_call c h L =
     (case c of
        Append_tail v \<Rightarrow> Some (Double_append_tail v h L)
      | Append_head v \<Rightarrow> Some (Double_append_head v h L)
      | Extend vs \<Rightarrow> Some (Double_extend vs h L)
      | Insert_after x v \<Rightarrow> Double_insert_after x v h L
      | Insert_before x v \<Rightarrow> Double_insert_before x v h L
      | Remove x \<Rightarrow> Double_remove x h L
      | Getitem index \<Rightarrow> getitem_call h L index
      | Setitem index v \<Rightarrow> setitem h L index v)"

text \<open>The node a call is given, if it is given one.\<close>

fun node_arg :: "'a call \<Rightarrow> addr option" where
  "node_arg (Insert_after (ByNode a) v) = Some a"
| "node_arg (Insert_before (ByNode a) v) = Some a"
| "node_arg (Remove (ByNode a)) = Some a"
| "node_arg c = None"

text \<open>The index or node a call is given; the appends and \<open>extend\<close> are given values only.\<close>

fun target :: "'a call \<Rightarrow> node_or_index option" where
  "target (Insert_after x v) = Some x"
| "target (Insert_before x v) = Some x"
| "target (Remove x) = Some x"
| "target (Getitem index) = Some (ByIndex index)"
| "target (Setitem index v) = Some (ByIndex index)"
| "target c = None"

text \<open>A call has valid arguments when the node it is given, if any, is a node of the list.
  Indices are not restricted: a call with a bad index raises.\<close>

definition valid_call :: "('a, 'z) Node_scheme heap \<Rightarrow> Linked \<Rightarrow> 'a call \<Rightarrow> bool" where
  "valid_call h L c =
     (case node_arg c of
        None \<Rightarrow> True
      | Some a \<Rightarrow> (case iter h L of None \<Rightarrow> False | Some as \<Rightarrow> a \<in> set as))"

text \<open>The lists that are reachable: \<open>Double()\<close> in any store, followed by calls with valid
  arguments.\<close>

inductive Double_reachable :: "'a DNode heap \<Rightarrow> Linked \<Rightarrow> bool" where
  new: "Double_reachable h empty_list"
| call: "Double_reachable h L \<Longrightarrow> valid_call h L c \<Longrightarrow> Double_call c h L = Some (r, h', L')
         \<Longrightarrow> Double_reachable h' L'"

section \<open>Well-formed lists\<close>

text \<open>\<open>chain c p as q\<close>: following \<open>next_node\<close> from \<open>p\<close> visits exactly the nodes \<open>as\<close> and
  arrives at \<open>q\<close>. \<open>dseg c prev p as q\<close>: moreover each visited node's \<open>last_node\<close> is the node
  before it, \<open>prev\<close> for the first.\<close>

fun chain :: "(addr \<Rightarrow> ('a, 'z) Node_scheme) \<Rightarrow> ref \<Rightarrow> addr list \<Rightarrow> ref \<Rightarrow> bool" where
  "chain c p [] q = (p = q)"
| "chain c p (a # as) q = (p = Some a \<and> chain c (next_node (c a)) as q)"

fun dseg :: "(addr \<Rightarrow> 'a DNode) \<Rightarrow> ref \<Rightarrow> ref \<Rightarrow> addr list \<Rightarrow> ref \<Rightarrow> bool" where
  "dseg c prev p [] q = (p = q)"
| "dseg c prev p (a # as) q =
     (p = Some a \<and> last_node (c a) = prev \<and> dseg c (Some a) (next_node (c a)) as q)"

definition last_ref :: "ref \<Rightarrow> addr list \<Rightarrow> ref" where
  "last_ref prev as = (if as = [] then prev else Some (last as))"

definition allocated :: "'n heap \<Rightarrow> addr list \<Rightarrow> bool" where
  "allocated h as = (\<forall>a \<in> set as. a < next_free h)"

text \<open>The nodes \<open>as\<close> are the list \<open>L\<close> in the store \<open>h\<close>: the chain from \<open>head\<close>, with \<open>tail\<close> its
  last node and \<open>_length\<close> its length.\<close>

definition Single_inv :: "('a, 'z) Node_scheme heap \<Rightarrow> Linked \<Rightarrow> addr list \<Rightarrow> bool" where
  "Single_inv h L as =
     (chain (cells h) (head L) as None \<and> tail L = last_ref None as \<and>
      length_attr L = int (length as) \<and> allocated h as)"

definition Double_inv :: "'a DNode heap \<Rightarrow> Linked \<Rightarrow> addr list \<Rightarrow> bool" where
  "Double_inv h L as =
     (dseg (cells h) None (head L) as None \<and> tail L = last_ref None as \<and>
      length_attr L = int (length as) \<and> allocated h as)"

definition values_of :: "('a, 'z) Node_scheme heap \<Rightarrow> addr list \<Rightarrow> 'a list" where
  "values_of h as = map (\<lambda>a. node_value (cells h a)) as"

section \<open>Concrete stores\<close>

definition heap0 :: "int Node heap" where
  "heap0 = \<lparr>cells = (\<lambda>_. \<lparr>node_value = 0, next_node = None\<rparr>), next_free = 0\<rparr>"

definition dheap0 :: "int DNode heap" where
  "dheap0 = \<lparr>cells = (\<lambda>_. DNode_init 0 None None), next_free = 0\<rparr>"

text \<open>\<open>Double(6, 5, 2)\<close> made in the empty store.\<close>

definition demo_double :: "int DNode heap \<times> Linked" where
  "demo_double = (case Double_init [6, 5, 2] dheap0 of (r, h, L) \<Rightarrow> (h, L))"

text \<open>\<open>SinglyLinked(6, 5, 2)\<close> made in the empty store; \<open>Double(7)\<close> made in the store that
  already holds \<open>Double(6, 5, 2)\<close>, whose nodes are 0, 1 and 2.\<close>

definition demo_single :: "int Node heap \<times> Linked" where
  "demo_single = (case SinglyLinked_init [6, 5, 2] heap0 of (r, h, L) \<Rightarrow> (h, L))"

definition demo_other :: "int DNode heap \<times> Linked" where
  "demo_other = (case Double_init [7] (fst demo_double) of (r, h, L) \<Rightarrow> (h, L))"

text \<open>\<open>L = Double(1, 2); n = L[1]; L.remove(n); L.append_tail(3)\<close>: the node \<open>n\<close> (address 1)
  is no longer in the list, but its \<open>last_node\<close> still refers to the first node.\<close>

definition demo_stale :: "int DNode heap \<times> Linked" where
  "demo_stale =
     (case Double_init [1, 2] dheap0 of (r1, h1, L1) \<Rightarrow>
      case Double_remove_node 1 h1 L1 of (r2, h2, L2) \<Rightarrow>
      case Double_append_tail 3 h2 L2 of (r3, h3, L3) \<Rightarrow> (h3, L3))"

text \<open>What a caller sees of a call: the exception it raised, if any, and the values of
  the list afterwards.\<close>

definition raised :: "('r, 'n) result option \<Rightarrow> error option" where
  "raised res = (case res of Some (Inl e, h, L) \<Rightarrow> Some e | _ \<Rightarrow> None)"

definition values_after :: "('r, ('a, 'z) Node_scheme) result option \<Rightarrow> 'a list option" where
  "values_after res = (case res of Some (r, h, L) \<Rightarrow> iter_values h L | None \<Rightarrow> None)"

section \<open>Auxiliary notions\<close>

text \<open>The position that an index designates in a list of \<open>n\<close> nodes: \<open>-1\<close> is the last.\<close>

definition position :: "int \<Rightarrow> nat \<Rightarrow> nat" where
  "position i n = (if i = - 1 then n - 1 else nat i)"

text \<open>A store that differs from \<open>h\<close> at most by one newly made node.\<close>

definition untouched :: "'n heap \<Rightarrow> 'n heap \<Rightarrow> bool" where
  "untouched h h' = (h' = h \<or> (\<exists>nd. h' = alloc h nd))"

section \<open>Chains in the store\<close>

lemmas heap_ops = alloc_def set_next_def set_last_def set_value_def DNode_init_def

text \<open>The concrete lists are well-formed.\<close>

lemmas run_defs = SinglyLinked_init_def SinglyLinked_append_tail_def Double_init_def
  Double_append_tail_def heap_ops Let_def empty_list_def heap0_def dheap0_def

lemma demo_single_inv: "Single_inv (fst demo_single) (snd demo_single) [0, 1, 2]"
  by (simp add: demo_single_def run_defs Single_inv_def last_ref_def allocated_def)

lemma demo_double_inv: "Double_inv (fst demo_double) (snd demo_double) [0, 1, 2]"
  by (simp add: demo_double_def run_defs Double_inv_def last_ref_def allocated_def)

lemma demo_other_inv: "Double_inv (fst demo_other) (snd demo_other) [3]"
  by (simp add: demo_other_def demo_double_def run_defs Double_inv_def last_ref_def allocated_def)

lemma chain_append: "chain c p (xs @ ys) q = (\<exists>m. chain c p xs m \<and> chain c m ys q)"
  by (induction xs arbitrary: p) auto

lemma chain_upd [simp]: "a \<notin> set as \<Longrightarrow> chain (c(a := x)) p as q = chain c p as q"
  by (induction as arbitrary: p) auto

lemma chain_upd_value [simp]:
  "chain (c(a := (c a)\<lparr>node_value := v\<rparr>)) p as q = chain c p as q"
  by (induction as arbitrary: p) auto

lemma chain_unique: "chain c p as None \<Longrightarrow> chain c p bs None \<Longrightarrow> as = bs"
proof (induction as arbitrary: p bs)
  case Nil
  then show ?case by (cases bs) auto
next
  case (Cons a as)
  then show ?case by (cases bs) auto
qed

lemma chain_distinct: "chain c p as None \<Longrightarrow> distinct as"
proof (induction as arbitrary: p)
  case Nil
  show ?case by simp
next
  case (Cons a as)
  have rest: "chain c (next_node (c a)) as None" using Cons.prems by simp
  have "a \<notin> set as"
  proof
    assume "a \<in> set as"
    then obtain xs ys where split: "as = xs @ a # ys" by (auto simp: in_set_conv_decomp)
    with rest have "chain c (next_node (c a)) ys None" by (auto simp: chain_append)
    with rest have "ys = as" by (rule chain_unique[rotated])
    with split show False by simp
  qed
  with Cons.IH[OF rest] show ?case by simp
qed

lemma chain_iter_from: "chain (cells h) p as None \<Longrightarrow> iter_from h p = Some as"
proof (induction as arbitrary: p)
  case Nil
  then show ?case by (simp add: iter_from.simps)
next
  case (Cons a as)
  then have "iter_from h (next_node (cells h a)) = Some as" by simp
  with Cons.prems show ?case by (subst iter_from.simps) simp
qed

lemma chain_enumerate_find:
  "chain (cells h) p as None \<Longrightarrow>
   enumerate_find h p k index =
     Some (if k \<le> index \<and> index < k + int (length as) then Some (as ! nat (index - k)) else None)"
proof (induction as arbitrary: p k)
  case Nil
  then show ?case by (simp add: enumerate_find.simps)
next
  case (Cons a as)
  have rest: "chain (cells h) (next_node (cells h a)) as None" using Cons.prems by simp
  show ?case
  proof (cases "k = index")
    case True
    with Cons.prems show ?thesis by (subst enumerate_find.simps) simp
  next
    case False
    have "enumerate_find h p k index = enumerate_find h (next_node (cells h a)) (k + 1) index"
      using Cons.prems False by (subst enumerate_find.simps) simp
    also note Cons.IH[OF rest, of "k + 1"]
    finally have step: "enumerate_find h p k index =
        Some (if k + 1 \<le> index \<and> index < k + 1 + int (length as)
              then Some (as ! nat (index - (k + 1))) else None)" .
    have idx: "nat (index - (k + 1)) = nat (index - k) - Suc 0" by arith
    have pos: "k + 1 \<le> index \<Longrightarrow> nat (index - k) \<noteq> 0" by arith
    show ?thesis using False pos unfolding step idx
      by (auto simp: nth_Cons')
  qed
qed

lemma dseg_chain: "dseg c prev p as q \<Longrightarrow> chain c p as q"
  by (induction as arbitrary: prev p) auto

lemma dseg_append:
  "dseg c prev p (xs @ ys) q = (\<exists>m. dseg c prev p xs m \<and> dseg c (last_ref prev xs) m ys q)"
  by (induction xs arbitrary: prev p) (auto simp: last_ref_def)

lemma dseg_upd [simp]: "a \<notin> set as \<Longrightarrow> dseg (c(a := x)) prev p as q = dseg c prev p as q"
  by (induction as arbitrary: prev p) auto

lemma dseg_upd_value [simp]:
  "dseg (c(a := (c a)\<lparr>node_value := v\<rparr>)) prev p as q = dseg c prev p as q"
  by (induction as arbitrary: prev p) auto

section \<open>The invariant of Double\<close>

lemma head_of_chain: "chain c p as None \<Longrightarrow> (p = None) = (as = [])"
  by (cases as) auto

lemma Double_inv_chain: "Double_inv h L as \<Longrightarrow> chain (cells h) (head L) as None"
  by (auto simp: Double_inv_def dest: dseg_chain)

lemma Double_inv_distinct: "Double_inv h L as \<Longrightarrow> distinct as"
  by (auto dest: Double_inv_chain chain_distinct)

lemma Double_inv_iter: "Double_inv h L as \<Longrightarrow> iter h L = Some as"
  by (auto simp: iter_def dest: Double_inv_chain chain_iter_from)

lemma Double_inv_empty [simp]: "Double_inv h empty_list []"
  by (simp add: Double_inv_def empty_list_def last_ref_def allocated_def)

lemma Double_append_tail_inv:
  assumes "Double_inv h L as"
  shows "\<exists>h' L'. Double_append_tail v h L = (Inr (), h', L') \<and>
           Double_inv h' L' (as @ [next_free h]) \<and>
           values_of h' (as @ [next_free h]) = values_of h as @ [v]"
proof (cases as rule: rev_cases)
  case Nil
  with assms show ?thesis
    by (auto simp: Double_inv_def Double_append_tail_def heap_ops Let_def last_ref_def
        allocated_def values_of_def)
next
  case (snoc xs t)
  have d: "distinct (xs @ [t])" using Double_inv_distinct[OF assms] snoc by simp
  have hd: "head L \<noteq> None" using Double_inv_chain[OF assms] snoc by (cases xs) auto
  show ?thesis using assms snoc d hd
    by (auto simp: Double_inv_def Double_append_tail_def heap_ops Let_def last_ref_def
        allocated_def values_of_def dseg_append)
qed

lemma Double_append_head_inv:
  assumes "Double_inv h L as"
  shows "\<exists>h' L'. Double_append_head v h L = (Inr (), h', L') \<and>
           Double_inv h' L' (next_free h # as)"
proof (cases as)
  case Nil
  with assms show ?thesis
    by (auto simp: Double_inv_def Double_append_head_def heap_ops Let_def last_ref_def
        allocated_def less_SucI)
next
  case (Cons a ys)
  have f: "next_free h \<notin> set (a # ys)"
    using assms Cons by (auto simp: Double_inv_def allocated_def)
  have d: "distinct (a # ys)" using Double_inv_distinct[OF assms] Cons by simp
  show ?thesis using assms Cons d f
    by (auto simp: Double_inv_def Double_append_head_def heap_ops Let_def last_ref_def
        allocated_def less_SucI)
qed

lemma Double_insert_after_node_inv:
  assumes "Double_inv h L (xs @ a # ys)"
  shows "\<exists>h' L'. Double_insert_after_node a v h L = (Inr (), h', L') \<and>
           Double_inv h' L' (xs @ a # next_free h # ys)"
proof (cases ys)
  case Nil
  have f: "next_free h \<notin> set (xs @ [a])"
    using assms Nil by (auto simp: Double_inv_def allocated_def)
  have d: "distinct (xs @ [a])" using Double_inv_distinct[OF assms] Nil by simp
  show ?thesis using assms Nil d f
    by (auto simp: Double_inv_def Double_insert_after_node_def heap_ops Let_def last_ref_def
        allocated_def dseg_append ball_Un less_SucI)
next
  case (Cons b zs)
  have f: "next_free h \<notin> set (xs @ a # b # zs)"
    using assms Cons by (auto simp: Double_inv_def allocated_def)
  have d: "distinct (xs @ a # b # zs)" using Double_inv_distinct[OF assms] Cons by simp
  show ?thesis using assms Cons d f
    by (auto simp: Double_inv_def Double_insert_after_node_def heap_ops Let_def last_ref_def
        allocated_def dseg_append ball_Un less_SucI)
qed

lemma Double_insert_before_node_inv:
  assumes "Double_inv h L (xs @ a # ys)"
  shows "\<exists>h' L'. Double_insert_before_node a v h L = (Inr (), h', L') \<and>
           Double_inv h' L' (xs @ next_free h # a # ys)"
proof (cases xs rule: rev_cases)
  case Nil
  have f: "next_free h \<notin> set (a # ys)"
    using assms Nil by (auto simp: Double_inv_def allocated_def)
  have d: "distinct (a # ys)" using Double_inv_distinct[OF assms] Nil by simp
  show ?thesis using assms Nil d f
    by (auto simp: Double_inv_def Double_insert_before_node_def heap_ops Let_def last_ref_def
        allocated_def dseg_append ball_Un less_SucI)
next
  case (snoc ws p)
  have f: "next_free h \<notin> set (ws @ p # a # ys)"
    using assms snoc by (auto simp: Double_inv_def allocated_def)
  have d: "distinct (ws @ p # a # ys)" using Double_inv_distinct[OF assms] snoc by simp
  have nh: "Some a \<noteq> head L"
    using assms snoc d by (cases ws) (auto simp: Double_inv_def)
  show ?thesis using assms snoc d f nh
    by (auto simp: Double_inv_def Double_insert_before_node_def heap_ops Let_def last_ref_def
        allocated_def dseg_append ball_Un less_SucI)
qed

lemma Double_remove_node_inv:
  assumes "Double_inv h L (xs @ a # ys)"
  shows "\<exists>h' L'. Double_remove_node a h L = (Inr (), h', L') \<and> Double_inv h' L' (xs @ ys)"
proof (cases xs rule: rev_cases)
  case Nil
  note xs = Nil
  show ?thesis
  proof (cases ys)
    case Nil
    with assms xs show ?thesis
      by (auto simp: Double_inv_def Double_remove_node_def heap_ops Let_def last_ref_def
          allocated_def empty_list_def)
  next
    case (Cons b zs)
    have d: "distinct (a # b # zs)" using Double_inv_distinct[OF assms] xs Cons by simp
    show ?thesis using assms xs Cons d
      by (auto simp: Double_inv_def Double_remove_node_def heap_ops Let_def last_ref_def
          allocated_def)
  qed
next
  case (snoc ws p)
  note xs = snoc
  show ?thesis
  proof (cases ys)
    case Nil
    have d: "distinct (ws @ [p, a])" using Double_inv_distinct[OF assms] xs Nil by simp
    have nh: "Some a \<noteq> head L"
      using assms xs Nil d by (cases ws) (auto simp: Double_inv_def)
    show ?thesis using assms xs Nil d nh
      by (auto simp: Double_inv_def Double_remove_node_def heap_ops Let_def last_ref_def
          allocated_def dseg_append)
  next
    case (Cons b zs)
    have d: "distinct (ws @ p # a # b # zs)" using Double_inv_distinct[OF assms] xs Cons by simp
    have nh: "Some a \<noteq> head L"
      using assms xs Cons d by (cases ws) (auto simp: Double_inv_def)
    show ?thesis using assms xs Cons d nh
      by (auto simp: Double_inv_def Double_remove_node_def heap_ops Let_def last_ref_def
          allocated_def dseg_append)
  qed
qed

lemma getitem_chain:
  assumes "chain (cells h) (head L) as None" and "tail L = last_ref None as"
  shows "getitem h L (Idx i) =
           Some (if 0 \<le> i \<and> i < int (length as) then Inr (as ! nat i)
                 else if i = - 1 \<and> as \<noteq> [] then Inr (last as)
                 else Inl IndexError)"
  using assms
  by (auto simp: getitem_def chain_enumerate_find last_ref_def)

lemma getitem_chain_mem:
  assumes "chain (cells h) (head L) as None" and "tail L = last_ref None as"
    and "getitem h L index = Some (Inr a)"
  shows "a \<in> set as"
proof (cases index)
  case (Idx i)
  with assms show ?thesis
    by (auto simp: getitem_chain split: if_splits)
next
  case Slice
  with assms show ?thesis by (simp add: getitem_def)
qed

lemma getitem_chain_total:
  assumes "chain (cells h) (head L) as None" and "tail L = last_ref None as"
  shows "getitem h L index \<noteq> None"
proof (cases index)
  case (Idx i)
  then show ?thesis using getitem_chain[OF assms, of i] by simp
next
  case Slice
  then show ?thesis by (simp add: getitem_def)
qed

lemma Double_inv_node_of:
  assumes "Double_inv h L as"
  shows "\<exists>r. node_of h L x = Some r \<and> (\<forall>a. r = Inr a \<longrightarrow> (\<forall>b. x = ByNode b \<longrightarrow> a = b) \<and> (\<forall>i. x = ByIndex i \<longrightarrow> a \<in> set as))"
proof (cases x)
  case (ByNode b)
  then show ?thesis by (simp add: node_of_def)
next
  case (ByIndex i)
  have c: "chain (cells h) (head L) as None" and t: "tail L = last_ref None as"
    using assms by (auto simp: Double_inv_def dest: dseg_chain)
  from getitem_chain_total[OF c t, of i] obtain r where r: "getitem h L i = Some r" by auto
  with getitem_chain_mem[OF c t] ByIndex show ?thesis by (auto simp: node_of_def)
qed

lemma Double_setitem_inv:
  assumes "Double_inv h L as" and "setitem h L index v = Some (r, h', L')"
  shows "Double_inv h' L' as"
  using assms
  by (auto simp: setitem_def Double_inv_def set_value_def allocated_def
      split: index.splits if_splits option.splits)

lemma Double_extend_inv:
  "Double_inv h L as \<Longrightarrow>
   \<exists>h' L' bs. Double_extend vs h L = (Inr (), h', L') \<and> Double_inv h' L' (as @ bs) \<and>
     values_of h' (as @ bs) = values_of h as @ vs"
proof (induction vs arbitrary: h L as)
  case Nil
  then show ?case by (intro exI[of _ h] exI[of _ L] exI[of _ "[]"]) simp
next
  case (Cons v vs)
  from Double_append_tail_inv[OF Cons.prems, of v] obtain h1 L1 where
    step: "Double_append_tail v h L = (Inr (), h1, L1)" and
    inv1: "Double_inv h1 L1 (as @ [next_free h])" and
    vals: "values_of h1 (as @ [next_free h]) = values_of h as @ [v]" by blast
  from Cons.IH[OF inv1] obtain h' L' bs where
    "Double_extend vs h1 L1 = (Inr (), h', L')" "Double_inv h' L' ((as @ [next_free h]) @ bs)"
    "values_of h' ((as @ [next_free h]) @ bs) = values_of h1 (as @ [next_free h]) @ vs" by blast
  with step vals show ?case
    by (intro exI[of _ h'] exI[of _ L'] exI[of _ "next_free h # bs"]) simp
qed

lemma Double_inv_by_node:
  assumes inv: "Double_inv h L as" and mem: "a \<in> set as"
  shows "\<exists>h' L' as'. Double_insert_after_node a v h L = (Inr (), h', L') \<and> Double_inv h' L' as'"
    and "\<exists>h' L' as'. Double_insert_before_node a v h L = (Inr (), h', L') \<and> Double_inv h' L' as'"
    and "\<exists>h' L' as'. Double_remove_node a h L = (Inr (), h', L') \<and> Double_inv h' L' as'"
proof -
  from mem obtain xs ys where as: "as = xs @ a # ys" by (auto simp: in_set_conv_decomp)
  show "\<exists>h' L' as'. Double_insert_after_node a v h L = (Inr (), h', L') \<and> Double_inv h' L' as'"
    using Double_insert_after_node_inv[OF inv[unfolded as], of v] by blast
  show "\<exists>h' L' as'. Double_insert_before_node a v h L = (Inr (), h', L') \<and> Double_inv h' L' as'"
    using Double_insert_before_node_inv[OF inv[unfolded as], of v] by blast
  show "\<exists>h' L' as'. Double_remove_node a h L = (Inr (), h', L') \<and> Double_inv h' L' as'"
    using Double_remove_node_inv[OF inv[unfolded as]] by blast
qed

lemma Double_node_of_cases:
  assumes inv: "Double_inv h L as" and ok: "\<forall>b. x = ByNode b \<longrightarrow> b \<in> set as"
  obtains e where "node_of h L x = Some (Inl e)"
  | a where "node_of h L x = Some (Inr a)" and "a \<in> set as"
proof -
  from Double_inv_node_of[OF inv, of x] obtain r where
    r: "node_of h L x = Some r" and
    m: "\<forall>a. r = Inr a \<longrightarrow> (\<forall>b. x = ByNode b \<longrightarrow> a = b) \<and> (\<forall>i. x = ByIndex i \<longrightarrow> a \<in> set as)"
    by blast
  show thesis
  proof (cases r)
    case (Inl e)
    with r that show ?thesis by blast
  next
    case (Inr a)
    with m ok have "a \<in> set as" by (cases x) auto
    with r Inr that show ?thesis by blast
  qed
qed

lemma Double_call_inv:
  assumes inv: "Double_inv h L as" and valid: "valid_call h L c"
    and call: "Double_call c h L = Some (r, h', L')"
  shows "\<exists>as'. Double_inv h' L' as'"
proof -
  have it: "iter h L = Some as" by (rule Double_inv_iter[OF inv])
  have ok: "\<And>a. node_arg c = Some a \<Longrightarrow> a \<in> set as"
    using valid it by (auto simp: valid_call_def)
  show ?thesis
  proof (cases c)
    case (Append_tail v)
    with call Double_append_tail_inv[OF inv, of v] show ?thesis
      by (auto simp: Double_call_def)
  next
    case (Append_head v)
    with call Double_append_head_inv[OF inv, of v] show ?thesis
      by (auto simp: Double_call_def)
  next
    case (Extend vs)
    with call Double_extend_inv[OF inv, of vs] show ?thesis
      by (auto simp: Double_call_def)
  next
    case (Insert_after x v)
    have "\<forall>b. x = ByNode b \<longrightarrow> b \<in> set as" using ok Insert_after by auto
    from inv this show ?thesis
    proof (cases rule: Double_node_of_cases)
      case (1 e)
      with call Insert_after inv show ?thesis
        by (auto simp: Double_call_def Double_insert_after_def)
    next
      case (2 a)
      with call Insert_after Double_inv_by_node(1)[OF inv 2(2), of v] show ?thesis
        by (auto simp: Double_call_def Double_insert_after_def)
    qed
  next
    case (Insert_before x v)
    have "\<forall>b. x = ByNode b \<longrightarrow> b \<in> set as" using ok Insert_before by auto
    from inv this show ?thesis
    proof (cases rule: Double_node_of_cases)
      case (1 e)
      with call Insert_before inv show ?thesis
        by (auto simp: Double_call_def Double_insert_before_def)
    next
      case (2 a)
      with call Insert_before Double_inv_by_node(2)[OF inv 2(2), of v] show ?thesis
        by (auto simp: Double_call_def Double_insert_before_def)
    qed
  next
    case (Remove x)
    have "\<forall>b. x = ByNode b \<longrightarrow> b \<in> set as" using ok Remove by auto
    from inv this show ?thesis
    proof (cases rule: Double_node_of_cases)
      case (1 e)
      with call Remove inv show ?thesis
        by (auto simp: Double_call_def Double_remove_def)
    next
      case (2 a)
      with call Remove Double_inv_by_node(3)[OF inv 2(2)] show ?thesis
        by (auto simp: Double_call_def Double_remove_def)
    qed
  next
    case (Getitem i)
    with call inv show ?thesis
      by (auto simp: Double_call_def getitem_call_def split: option.splits sum.splits)
  next
    case (Setitem i v)
    with call have "setitem h L i v = Some (r, h', L')" by (simp add: Double_call_def)
    from Double_setitem_inv[OF inv this] show ?thesis ..
  qed
qed

lemma Double_reachable_inv: "Double_reachable h L \<Longrightarrow> \<exists>as. Double_inv h L as"
proof (induction rule: Double_reachable.induct)
  case (new h)
  show ?case by (rule exI[of _ "[]"]) simp
next
  case (call h L c r h' L')
  then show ?case by (blast dest: Double_call_inv)
qed

lemma dseg_adjacent:
  "dseg c prev p as None \<Longrightarrow> Suc i < length as \<Longrightarrow>
   next_node (c (as ! i)) = Some (as ! Suc i) \<and> last_node (c (as ! Suc i)) = Some (as ! i)"
proof (induction as arbitrary: prev p i)
  case Nil
  then show ?case by simp
next
  case (Cons a as)
  show ?case
  proof (cases i)
    case 0
    with Cons.prems show ?thesis by (cases as) auto
  next
    case (Suc j)
    with Cons.prems Cons.IH[of "Some a" "next_node (c a)" j] show ?thesis by simp
  qed
qed

lemma dseg_ends:
  "dseg c prev p as None \<Longrightarrow> as \<noteq> [] \<Longrightarrow>
   p = Some (hd as) \<and> last_node (c (hd as)) = prev \<and> next_node (c (last as)) = None"
  by (induction as arbitrary: prev p) auto

text \<open>
  Claim C4. In every doubly-linked list reached from \<open>Double()\<close> by calls with valid
  arguments, the forward traversal ends, and for every two adjacent nodes of it the
  \<open>next_node\<close> of the earlier is the later and the \<open>last_node\<close> of the later is the earlier;
  \<open>head\<close> and \<open>tail\<close> are the first and the last node, the head's \<open>last_node\<close> and the tail's
  \<open>next_node\<close> are \<open>None\<close>, and an empty list has neither head nor tail.
\<close>

theorem Double_links_consistent:
  assumes "Double_reachable h L"
  shows "\<exists>as. iter h L = Some as \<and>
           (\<forall>i. Suc i < length as \<longrightarrow>
              next_node (cells h (as ! i)) = Some (as ! Suc i) \<and>
              last_node (cells h (as ! Suc i)) = Some (as ! i)) \<and>
           (as = [] \<longrightarrow> head L = None \<and> tail L = None) \<and>
           (as \<noteq> [] \<longrightarrow> head L = Some (hd as) \<and> tail L = Some (last as) \<and>
              last_node (cells h (hd as)) = None \<and> next_node (cells h (last as)) = None)"
proof -
  from Double_reachable_inv[OF assms] obtain as where inv: "Double_inv h L as" ..
  then have seg: "dseg (cells h) None (head L) as None" and t: "tail L = last_ref None as"
    by (auto simp: Double_inv_def)
  have "iter h L = Some as" by (rule Double_inv_iter[OF inv])
  moreover have "\<forall>i. Suc i < length as \<longrightarrow>
      next_node (cells h (as ! i)) = Some (as ! Suc i) \<and>
      last_node (cells h (as ! Suc i)) = Some (as ! i)"
    using dseg_adjacent[OF seg] by blast
  moreover have "as = [] \<longrightarrow> head L = None \<and> tail L = None"
    using seg t by (auto simp: last_ref_def)
  moreover have "as \<noteq> [] \<longrightarrow> head L = Some (hd as) \<and> tail L = Some (last as) \<and>
      last_node (cells h (hd as)) = None \<and> next_node (cells h (last as)) = None"
    using dseg_ends[OF seg] t by (auto simp: last_ref_def)
  ultimately show ?thesis by blast
qed

theorem Double_links_consistent_witness:
  "Double_reachable (fst demo_double) (snd demo_double) \<and>
   (\<exists>as. iter (fst demo_double) (snd demo_double) = Some as \<and>
      (\<forall>i. Suc i < length as \<longrightarrow>
         next_node (cells (fst demo_double) (as ! i)) = Some (as ! Suc i) \<and>
         last_node (cells (fst demo_double) (as ! Suc i)) = Some (as ! i)) \<and>
      (as = [] \<longrightarrow> head (snd demo_double) = None \<and> tail (snd demo_double) = None) \<and>
      (as \<noteq> [] \<longrightarrow> head (snd demo_double) = Some (hd as) \<and>
         tail (snd demo_double) = Some (last as) \<and>
         last_node (cells (fst demo_double) (hd as)) = None \<and>
         next_node (cells (fst demo_double) (last as)) = None))"
proof -
  have run: "Double_call (Extend [6, 5, 2]) dheap0 empty_list =
      Some (Inr (), fst demo_double, snd demo_double)"
    by (simp add: Double_call_def demo_double_def Double_init_def Double_append_tail_def
        heap_ops Let_def empty_list_def dheap0_def)
  have valid: "valid_call dheap0 empty_list (Extend [6, 5, 2])"
    by (simp add: valid_call_def)
  have reach: "Double_reachable (fst demo_double) (snd demo_double)"
    by (rule Double_reachable.call[OF Double_reachable.new valid run])
  from Double_links_consistent[OF reach] reach show ?thesis by blast
qed

section \<open>Construction and iteration\<close>

lemma Single_inv_iter: "Single_inv h L as \<Longrightarrow> iter h L = Some as"
  by (auto simp: iter_def Single_inv_def dest: chain_iter_from)

lemma Single_inv_empty [simp]: "Single_inv h empty_list []"
  by (simp add: Single_inv_def empty_list_def last_ref_def allocated_def)

lemma SinglyLinked_append_tail_inv:
  assumes "Single_inv h L as"
  shows "\<exists>h' L'. SinglyLinked_append_tail v h L = (Inr (), h', L') \<and>
           Single_inv h' L' (as @ [next_free h]) \<and>
           values_of h' (as @ [next_free h]) = values_of h as @ [v]"
proof (cases as rule: rev_cases)
  case Nil
  with assms show ?thesis
    by (auto simp: Single_inv_def SinglyLinked_append_tail_def heap_ops Let_def last_ref_def
        allocated_def values_of_def)
next
  case (snoc xs t)
  have c: "chain (cells h) (head L) (xs @ [t]) None" using assms snoc by (simp add: Single_inv_def)
  have d: "distinct (xs @ [t])" by (rule chain_distinct[OF c])
  have hd: "head L \<noteq> None" using c by (cases xs) auto
  show ?thesis using assms snoc d hd
    by (auto simp: Single_inv_def SinglyLinked_append_tail_def heap_ops Let_def last_ref_def
        allocated_def values_of_def chain_append)
qed

lemma SinglyLinked_extend_inv:
  "Single_inv h L as \<Longrightarrow>
   \<exists>h' L' bs. SinglyLinked_extend vs h L = (Inr (), h', L') \<and> Single_inv h' L' (as @ bs) \<and>
     values_of h' (as @ bs) = values_of h as @ vs"
proof (induction vs arbitrary: h L as)
  case Nil
  then show ?case by (intro exI[of _ h] exI[of _ L] exI[of _ "[]"]) simp
next
  case (Cons v vs)
  from SinglyLinked_append_tail_inv[OF Cons.prems, of v] obtain h1 L1 where
    step: "SinglyLinked_append_tail v h L = (Inr (), h1, L1)" and
    inv1: "Single_inv h1 L1 (as @ [next_free h])" and
    vals: "values_of h1 (as @ [next_free h]) = values_of h as @ [v]" by blast
  from Cons.IH[OF inv1] obtain h' L' bs where
    "SinglyLinked_extend vs h1 L1 = (Inr (), h', L')" "Single_inv h' L' ((as @ [next_free h]) @ bs)"
    "values_of h' ((as @ [next_free h]) @ bs) = values_of h1 (as @ [next_free h]) @ vs" by blast
  with step vals show ?case
    by (intro exI[of _ h'] exI[of _ L'] exI[of _ "next_free h # bs"]) simp
qed

lemma dseg_snoc:
  "dseg c prev p (xs @ [a]) q =
     (dseg c prev p xs (Some a) \<and> last_node (c a) = last_ref prev xs \<and> next_node (c a) = q)"
  by (auto simp: dseg_append)

lemma dseg_iter_reverse_from:
  "dseg (cells h) None p as q \<Longrightarrow> iter_reverse_from h (last_ref None as) = Some (rev as)"
proof (induction as arbitrary: q rule: rev_induct)
  case Nil
  show ?case by (simp add: last_ref_def iter_reverse_from.simps)
next
  case (snoc a xs)
  then have "iter_reverse_from h (last_ref None xs) = Some (rev xs)"
    and "last_node (cells h a) = last_ref None xs" by (auto simp: dseg_snoc)
  then show ?case by (subst iter_reverse_from.simps) (simp add: last_ref_def)
qed

lemma Double_inv_iter_reverse: "Double_inv h L as \<Longrightarrow> iter_reverse h L = Some (rev as)"
  by (auto simp: Double_inv_def iter_reverse_def dest: dseg_iter_reverse_from)

text \<open>
  Claim C7. A list constructed from the values \<open>vs\<close>, in any store, iterates over exactly
  \<open>vs\<close> in order; for \<open>Double\<close>, \<open>iter_reverse\<close> ends and yields nodes carrying the values of
  \<open>vs\<close> in reverse order.
\<close>

theorem construct_then_iterate:
  "(\<exists>h' L'. SinglyLinked_init vs hs = (Inr (), h', L') \<and> iter_values h' L' = Some vs) \<and>
   (\<exists>h' L' ns. Double_init vs hb = (Inr (), h', L') \<and> iter_values h' L' = Some vs \<and>
      iter_reverse h' L' = Some ns \<and> map (\<lambda>a. node_value (cells h' a)) ns = rev vs)"
proof
  from SinglyLinked_extend_inv[OF Single_inv_empty, of vs hs] obtain h' L' bs where
    run: "SinglyLinked_extend vs hs empty_list = (Inr (), h', L')" and
    inv: "Single_inv h' L' bs" and vals: "values_of h' bs = vs"
    by (auto simp: values_of_def)
  have "iter_values h' L' = Some vs"
    using Single_inv_iter[OF inv] vals by (simp add: iter_values_def values_of_def)
  with run show "\<exists>h' L'. SinglyLinked_init vs hs = (Inr (), h', L') \<and> iter_values h' L' = Some vs"
    by (simp add: SinglyLinked_init_def)
next
  from Double_extend_inv[OF Double_inv_empty, of vs hb] obtain h' L' bs where
    run: "Double_extend vs hb empty_list = (Inr (), h', L')" and
    inv: "Double_inv h' L' bs" and vals: "values_of h' bs = vs"
    by (auto simp: values_of_def)
  have fwd: "iter_values h' L' = Some vs"
    using Double_inv_iter[OF inv] vals by (simp add: iter_values_def values_of_def)
  have bwd: "iter_reverse h' L' = Some (rev bs)" by (rule Double_inv_iter_reverse[OF inv])
  have "map (\<lambda>a. node_value (cells h' a)) (rev bs) = rev vs"
    unfolding vals[symmetric] by (simp add: values_of_def rev_map)
  with run fwd bwd show "\<exists>h' L' ns. Double_init vs hb = (Inr (), h', L') \<and>
      iter_values h' L' = Some vs \<and> iter_reverse h' L' = Some ns \<and>
      map (\<lambda>a. node_value (cells h' a)) ns = rev vs"
    by (simp add: Double_init_def)
qed

section \<open>Assignment by index\<close>

text \<open>Whatever the list, an assignment by index that returns leaves the list object as
  it was and changes the value of one node, the one \<open>__getitem__\<close> returns for that index,
  and nothing else in the store.\<close>

lemma setitem_frame:
  assumes "setitem h L index v = Some (Inr u, h', L')"
  shows "L' = L \<and> (\<exists>a. getitem h L index = Some (Inr a) \<and> h' = set_value h a v)"
  using assms
  by (auto simp: setitem_def getitem_def split: index.splits if_splits option.splits)

lemma setitem_chain:
  assumes c: "chain (cells h) (head L) as None" and t: "tail L = last_ref None as"
    and valid: "0 \<le> i \<and> i < int (length as) \<or> i = - 1 \<and> as \<noteq> []"
  shows "setitem h L (Idx i) v = Some (Inr (), set_value h (as ! position i (length as)) v, L)"
  using assms
  by (auto simp: setitem_def chain_enumerate_find last_ref_def position_def last_conv_nth)

lemma position_less:
  "0 \<le> i \<and> i < int n \<or> i = - 1 \<and> n \<noteq> 0 \<Longrightarrow> position i n < n"
  by (auto simp: position_def)

lemma values_of_set_value:
  "distinct as \<Longrightarrow> k < length as \<Longrightarrow>
   values_of (set_value h (as ! k) v) as = (values_of h as)[k := v]"
  by (auto simp: values_of_def set_value_def list_eq_iff_nth_eq nth_list_update nth_eq_iff_index_eq)

lemma chain_set_value: "chain (cells (set_value h a v)) p as q = chain (cells h) p as q"
  by (simp add: set_value_def)

lemma dseg_set_value: "dseg (cells (set_value h a v)) prev p as q = dseg (cells h) prev p as q"
  by (simp add: set_value_def)

lemma Double_inv_Single_inv: "Double_inv h L as \<Longrightarrow> Single_inv h L as"
  by (auto simp: Double_inv_def Single_inv_def dest: dseg_chain)

lemma Single_setitem_run:
  assumes inv: "Single_inv h L as"
    and valid: "0 \<le> i \<and> i < length_attr L \<or> i = - 1 \<and> length_attr L \<noteq> 0"
  shows "setitem h L (Idx i) v = Some (Inr (), set_value h (as ! position i (length as)) v, L)"
    and "iter (set_value h (as ! position i (length as)) v) L = Some as"
    and "iter_values (set_value h (as ! position i (length as)) v) L =
           Some ((values_of h as)[position i (length as) := v])"
proof -
  let ?k = "position i (length as)"
  let ?h' = "set_value h (as ! ?k) v"
  have c: "chain (cells h) (head L) as None" and t: "tail L = last_ref None as"
    and n: "length_attr L = int (length as)"
    using inv by (auto simp: Single_inv_def)
  have valid': "0 \<le> i \<and> i < int (length as) \<or> i = - 1 \<and> as \<noteq> []"
    using valid n by auto
  have k: "?k < length as" using valid' by (intro position_less) auto
  have d: "distinct as" by (rule chain_distinct[OF c])
  show "setitem h L (Idx i) v = Some (Inr (), ?h', L)"
    by (rule setitem_chain[OF c t valid'])
  show it: "iter ?h' L = Some as"
    using c by (auto simp: iter_def chain_set_value intro: chain_iter_from)
  show "iter_values ?h' L = Some ((values_of h as)[?k := v])"
    using it values_of_set_value[OF d k, of h v] by (simp add: iter_values_def values_of_def)
qed

text \<open>
  On a well-formed list of either container, an assignment at index \<open>i\<close> with
  \<open>0 \<le> i < _length\<close>, or with \<open>i = -1\<close> on a non-empty list, returns normally and leaves
  the list object as it was; the traversal visits the same nodes in the same order, every
  link is as before, no node is made, every node other than the one at position \<open>i\<close> is
  unchanged, and the values of the list are the old ones with \<open>v\<close> at position \<open>i\<close>.
\<close>

lemma setitem_on_well_formed:
  "(Single_inv (hs::'a Node heap) Ls as \<and> (0 \<le> i \<and> i < length_attr Ls \<or> i = - 1 \<and> length_attr Ls \<noteq> 0) \<longrightarrow>
      (\<exists>h'. setitem hs Ls (Idx i) v = Some (Inr (), h', Ls) \<and>
         iter h' Ls = Some as \<and>
         iter_values h' Ls = Some ((values_of hs as)[position i (length as) := v]) \<and>
         (\<forall>b. next_node (cells h' b) = next_node (cells hs b)) \<and>
         (\<forall>b. b \<noteq> as ! position i (length as) \<longrightarrow> cells h' b = cells hs b) \<and>
         next_free h' = next_free hs)) \<and>
   (Double_inv (hb::'b DNode heap) Lb bs \<and> (0 \<le> j \<and> j < length_attr Lb \<or> j = - 1 \<and> length_attr Lb \<noteq> 0) \<longrightarrow>
      (\<exists>h'. setitem hb Lb (Idx j) w = Some (Inr (), h', Lb) \<and>
         iter h' Lb = Some bs \<and> iter_reverse h' Lb = Some (rev bs) \<and>
         iter_values h' Lb = Some ((values_of hb bs)[position j (length bs) := w]) \<and>
         (\<forall>b. next_node (cells h' b) = next_node (cells hb b) \<and>
              last_node (cells h' b) = last_node (cells hb b)) \<and>
         (\<forall>b. b \<noteq> bs ! position j (length bs) \<longrightarrow> cells h' b = cells hb b) \<and>
         next_free h' = next_free hb))"
proof (intro conjI impI)
  assume a: "Single_inv hs Ls as \<and> (0 \<le> i \<and> i < length_attr Ls \<or> i = - 1 \<and> length_attr Ls \<noteq> 0)"
  let ?h' = "set_value hs (as ! position i (length as)) v"
  have frame: "(\<forall>b. next_node (cells ?h' b) = next_node (cells hs b)) \<and>
      (\<forall>b. b \<noteq> as ! position i (length as) \<longrightarrow> cells ?h' b = cells hs b) \<and>
      next_free ?h' = next_free hs"
    by (simp add: set_value_def)
  from a have inv: "Single_inv hs Ls as"
    and valid: "0 \<le> i \<and> i < length_attr Ls \<or> i = - 1 \<and> length_attr Ls \<noteq> 0" by blast+
  from Single_setitem_run[OF inv valid, of v] frame
  show "\<exists>h'. setitem hs Ls (Idx i) v = Some (Inr (), h', Ls) \<and>
         iter h' Ls = Some as \<and>
         iter_values h' Ls = Some ((values_of hs as)[position i (length as) := v]) \<and>
         (\<forall>b. next_node (cells h' b) = next_node (cells hs b)) \<and>
         (\<forall>b. b \<noteq> as ! position i (length as) \<longrightarrow> cells h' b = cells hs b) \<and>
         next_free h' = next_free hs"
    by blast
next
  assume a: "Double_inv hb Lb bs \<and> (0 \<le> j \<and> j < length_attr Lb \<or> j = - 1 \<and> length_attr Lb \<noteq> 0)"
  let ?h' = "set_value hb (bs ! position j (length bs)) w"
  have frame: "(\<forall>b. next_node (cells ?h' b) = next_node (cells hb b) \<and>
              last_node (cells ?h' b) = last_node (cells hb b)) \<and>
      (\<forall>b. b \<noteq> bs ! position j (length bs) \<longrightarrow> cells ?h' b = cells hb b) \<and>
      next_free ?h' = next_free hb"
    by (simp add: set_value_def)
  from a have inv: "Double_inv hb Lb bs"
    and valid: "0 \<le> j \<and> j < length_attr Lb \<or> j = - 1 \<and> length_attr Lb \<noteq> 0" by blast+
  note run = Single_setitem_run[OF Double_inv_Single_inv[OF inv] valid, of w]
  have "Double_inv ?h' Lb bs" by (rule Double_setitem_inv[OF inv run(1)])
  then have "iter_reverse ?h' Lb = Some (rev bs)" by (rule Double_inv_iter_reverse)
  with run frame
  show "\<exists>h'. setitem hb Lb (Idx j) w = Some (Inr (), h', Lb) \<and>
         iter h' Lb = Some bs \<and> iter_reverse h' Lb = Some (rev bs) \<and>
         iter_values h' Lb = Some ((values_of hb bs)[position j (length bs) := w]) \<and>
         (\<forall>b. next_node (cells h' b) = next_node (cells hb b) \<and>
              last_node (cells h' b) = last_node (cells hb b)) \<and>
         (\<forall>b. b \<noteq> bs ! position j (length bs) \<longrightarrow> cells h' b = cells hb b) \<and>
         next_free h' = next_free hb"
    by blast
qed

section \<open>Calls that raise\<close>

lemma untouched_refl [simp]: "untouched h h"
  by (simp add: untouched_def)

lemma untouched_alloc [simp]: "untouched h (alloc h nd)"
  by (auto simp: untouched_def)

lemma untouched_chain:
  assumes "untouched h h'" and "allocated h as"
  shows "chain (cells h') p as q = chain (cells h) p as q"
    and "values_of h' as = values_of h as"
  using assms by (auto simp: untouched_def alloc_def allocated_def values_of_def)

lemma untouched_iter_values:
  assumes u: "untouched h h'" and c: "chain (cells h) (head L) as None" and a: "allocated h as"
  shows "iter_values h' L = iter_values h L"
proof -
  have "chain (cells h') (head L) as None" using c untouched_chain(1)[OF u a] by simp
  then have "iter h' L = Some as" by (auto simp: iter_def intro: chain_iter_from)
  moreover have "iter h L = Some as" using c by (auto simp: iter_def intro: chain_iter_from)
  ultimately show ?thesis
    using untouched_chain(2)[OF u a] by (simp add: iter_values_def values_of_def)
qed

lemma SinglyLinked_append_tail_raise:
  "SinglyLinked_append_tail v h L = (Inl e, h', L') \<Longrightarrow> L' = L \<and> untouched h h'"
  by (auto simp: SinglyLinked_append_tail_def Let_def split: if_splits option.splits)

lemma SinglyLinked_append_tail_tail:
  "SinglyLinked_append_tail v h L = (Inr u, h', L') \<Longrightarrow> head L' \<noteq> None \<and> tail L' \<noteq> None"
  by (auto simp: SinglyLinked_append_tail_def Let_def split: if_splits option.splits)

lemma SinglyLinked_extend_no_raise:
  "tail L \<noteq> None \<Longrightarrow> head L \<noteq> None \<Longrightarrow> SinglyLinked_extend vs h L \<noteq> (Inl e, h', L')"
proof (induction vs arbitrary: h L)
  case Nil
  show ?case by simp
next
  case (Cons v vs)
  obtain r h1 L1 where step: "SinglyLinked_append_tail v h L = (r, h1, L1)"
    by (cases "SinglyLinked_append_tail v h L") auto
  show ?case
  proof (cases r)
    case (Inl e1)
    with step Cons.prems show ?thesis
      by (auto simp: SinglyLinked_append_tail_def Let_def split: if_splits option.splits)
  next
    case (Inr u)
    with step SinglyLinked_append_tail_tail[of v h L u h1 L1] Cons.IH[of L1 h1] show ?thesis
      by simp
  qed
qed

lemma SinglyLinked_extend_raise:
  assumes "SinglyLinked_extend vs h L = (Inl e, h', L')"
  shows "L' = L \<and> untouched h h'"
proof (cases vs)
  case Nil
  with assms show ?thesis by simp
next
  case (Cons v ws)
  obtain r h1 L1 where step: "SinglyLinked_append_tail v h L = (r, h1, L1)"
    by (cases "SinglyLinked_append_tail v h L") auto
  show ?thesis
  proof (cases r)
    case (Inl e1)
    with step assms Cons SinglyLinked_append_tail_raise[of v h L e1 h1 L1] show ?thesis
      by simp
  next
    case (Inr u)
    with step SinglyLinked_append_tail_tail[of v h L u h1 L1]
    have "SinglyLinked_extend ws h1 L1 \<noteq> (Inl e, h', L')"
      by (intro SinglyLinked_extend_no_raise) auto
    with step Inr assms Cons show ?thesis by simp
  qed
qed

lemma SinglyLinked_insert_after_raise:
  "SinglyLinked_insert_after x v h L = Some (Inl e, h', L') \<Longrightarrow> L' = L \<and> untouched h h'"
  by (auto simp: SinglyLinked_insert_after_def Let_def
      split: node_or_index.splits option.splits sum.splits)

lemma SinglyLinked_remove_raise:
  "SinglyLinked_remove x h L = Some (Inl e, h', L') \<Longrightarrow> L' = L \<and> untouched h h'"
  by (auto simp: SinglyLinked_remove_def SinglyLinked_remove_by_node_def
      SinglyLinked_remove_by_index_def Let_def
      split: node_or_index.splits option.splits sum.splits if_splits index.splits)

lemma setitem_raise:
  "setitem h L index v = Some (Inl e, h', L') \<Longrightarrow> L' = L \<and> untouched h h'"
  by (auto simp: setitem_def split: index.splits option.splits if_splits)

lemma getitem_call_raise:
  "getitem_call h L index = Some (Inl e, h', L') \<Longrightarrow> L' = L \<and> untouched h h'"
  by (auto simp: getitem_call_def split: option.splits sum.splits)

lemma SinglyLinked_call_raise:
  assumes "SinglyLinked_call c h L = Some (Inl e, h', L')"
  shows "L' = L \<and> untouched h h'"
proof (cases c)
  case (Append_tail v)
  with assms show ?thesis by (auto simp: SinglyLinked_call_def dest: SinglyLinked_append_tail_raise)
next
  case (Append_head v)
  with assms show ?thesis
    by (auto simp: SinglyLinked_call_def SinglyLinked_append_head_def Let_def split: if_splits)
next
  case (Extend vs)
  with assms show ?thesis by (auto simp: SinglyLinked_call_def dest: SinglyLinked_extend_raise)
next
  case (Insert_after x v)
  with assms show ?thesis by (auto simp: SinglyLinked_call_def dest: SinglyLinked_insert_after_raise)
next
  case (Insert_before x v)
  with assms show ?thesis by (auto simp: SinglyLinked_call_def)
next
  case (Remove x)
  with assms show ?thesis by (auto simp: SinglyLinked_call_def dest: SinglyLinked_remove_raise)
next
  case (Getitem i)
  with assms show ?thesis by (auto simp: SinglyLinked_call_def dest: getitem_call_raise)
next
  case (Setitem i v)
  with assms show ?thesis by (auto simp: SinglyLinked_call_def dest: setitem_raise)
qed

lemma Double_insert_after_node_raise:
  "Double_insert_after_node a v h L = (Inl e, h', L') \<Longrightarrow> L' = L \<and> untouched h h'"
  by (auto simp: Double_insert_after_node_def Let_def split: if_splits option.splits)

lemma Double_insert_before_node_raise:
  "Double_insert_before_node a v h L = (Inl e, h', L') \<Longrightarrow> L' = L \<and> untouched h h'"
  by (auto simp: Double_insert_before_node_def Let_def split: if_splits option.splits)

text \<open>Stores that agree on the nodes of a list show the same list.\<close>

lemma chain_cong_cells:
  "\<forall>b \<in> set as. c' b = c b \<Longrightarrow> chain c' p as q = chain c p as q"
  by (induction as arbitrary: p) auto

lemma dseg_cong_cells:
  "\<forall>b \<in> set as. c' b = c b \<Longrightarrow> dseg c' prev p as q = dseg c prev p as q"
  by (induction as arbitrary: prev p) auto

lemma untouched_cells:
  assumes "untouched h h'" and "allocated h as"
  shows "(\<forall>b \<in> set as. cells h' b = cells h b) \<and> next_free h \<le> next_free h'"
  using assms by (auto simp: untouched_def alloc_def allocated_def)

lemma untouched_below:
  assumes "untouched h h'" and "a < next_free h"
  shows "cells h' a = cells h a"
  using assms by (auto simp: untouched_def alloc_def)

lemma same_cells_Double_inv:
  assumes inv: "Double_inv h L as"
    and same: "\<forall>b \<in> set as. cells h' b = cells h b" and free: "next_free h \<le> next_free h'"
  shows "Double_inv h' L as" and "values_of h' as = values_of h as"
proof -
  have "allocated h' as" using inv free by (auto simp: Double_inv_def allocated_def)
  with inv dseg_cong_cells[OF same] show "Double_inv h' L as" by (simp add: Double_inv_def)
  show "values_of h' as = values_of h as" using same by (simp add: values_of_def)
qed

text \<open>Where \<open>Double.remove\<close> raises when it is given a node that is not the head: at the
  first statement, before anything is written, or at the second, after the \<open>next_node\<close> of
  the node's predecessor has been set to \<open>None\<close>.\<close>

lemma Double_remove_node_raise:
  assumes "Double_remove_node a h L = (Inl e, h', L')" and "Some a \<noteq> head L"
  shows "L' = L \<and> (h' = h \<or> (\<exists>p. last_node (cells h a) = Some p \<and> h' = set_next h p None))"
  using assms
  by (auto simp: Double_remove_node_def set_next_def split: if_splits option.splits)

lemma not_butlast_is_last:
  assumes "b \<in> set bs" and "b \<notin> set (butlast bs)"
  shows "bs \<noteq> []" and "b = last bs"
proof -
  show ne: "bs \<noteq> []" using assms(1) by auto
  then have "bs = butlast bs @ [last bs]" by simp
  then have "set bs = set (butlast bs) \<union> {last bs}"
    by (metis list.simps(15) set_append empty_set)
  with assms show "b = last bs" by auto
qed

lemma Double_inv_head_mem: "Double_inv h L bs \<Longrightarrow> head L = Some a \<Longrightarrow> a \<in> set bs"
  by (cases bs) (auto simp: Double_inv_def)

lemma Double_inv_last_next:
  assumes "Double_inv h L bs" and "bs \<noteq> []"
  shows "next_node (cells h (last bs)) = None"
  using assms dseg_ends[of "cells h" None "head L" bs] by (simp add: Double_inv_def)

lemma Double_call_raise:
  assumes inv: "Double_inv h L bs"
    and excl: "\<forall>a p. c = Remove (ByNode a) \<and> a \<notin> set bs \<and> last_node (cells h a) = Some p
                 \<longrightarrow> p \<notin> set (butlast bs)"
    and call: "Double_call c h L = Some (Inl e, h', L')"
  shows "L' = L \<and> (\<forall>b \<in> set bs. cells h' b = cells h b) \<and> next_free h \<le> next_free h'"
proof -
  have al: "allocated h bs" using inv by (simp add: Double_inv_def)
  have fin: "L' = L \<and> untouched h h' \<Longrightarrow> ?thesis"
    using untouched_cells[OF _ al, of h'] by blast
  show ?thesis
  proof (cases c)
    case (Append_tail v)
    with call Double_append_tail_inv[OF inv, of v] show ?thesis
      by (auto simp: Double_call_def)
  next
    case (Append_head v)
    with call Double_append_head_inv[OF inv, of v] show ?thesis
      by (auto simp: Double_call_def)
  next
    case (Extend vs)
    with call Double_extend_inv[OF inv, of vs] show ?thesis
      by (auto simp: Double_call_def)
  next
    case (Insert_after x v)
    with call have "L' = L \<and> untouched h h'"
      by (auto simp: Double_call_def Double_insert_after_def
          split: option.splits sum.splits dest: Double_insert_after_node_raise)
    then show ?thesis by (rule fin)
  next
    case (Insert_before x v)
    with call have "L' = L \<and> untouched h h'"
      by (auto simp: Double_call_def Double_insert_before_def
          split: option.splits sum.splits dest: Double_insert_before_node_raise)
    then show ?thesis by (rule fin)
  next
    case (Getitem i)
    with call have "L' = L \<and> untouched h h'"
      by (auto simp: Double_call_def dest: getitem_call_raise)
    then show ?thesis by (rule fin)
  next
    case (Setitem i v)
    with call have "L' = L \<and> untouched h h'"
      by (auto simp: Double_call_def dest: setitem_raise)
    then show ?thesis by (rule fin)
  next
    case (Remove x)
    from Double_inv_node_of[OF inv, of x] obtain r where
      r: "node_of h L x = Some r" and
      m: "\<forall>a. r = Inr a \<longrightarrow> (\<forall>b. x = ByNode b \<longrightarrow> a = b) \<and> (\<forall>i. x = ByIndex i \<longrightarrow> a \<in> set bs)"
      by blast
    show ?thesis
    proof (cases r)
      case (Inl e1)
      with call Remove r show ?thesis by (auto simp: Double_call_def Double_remove_def)
    next
      case (Inr a)
      with call Remove r have body: "Double_remove_node a h L = (Inl e, h', L')"
        by (simp add: Double_call_def Double_remove_def)
      show ?thesis
      proof (cases "a \<in> set bs")
        case True
        with body Double_inv_by_node(3)[OF inv True] show ?thesis by auto
      next
        case False
        with Inr m have x: "x = ByNode a" by (cases x) auto
        have "Some a \<noteq> head L" using False Double_inv_head_mem[OF inv, of a] by auto
        from Double_remove_node_raise[OF body this] have L: "L' = L"
          and h: "h' = h \<or> (\<exists>p. last_node (cells h a) = Some p \<and> h' = set_next h p None)"
          by blast+
        from h show ?thesis
        proof
          assume "h' = h"
          with L show ?thesis by simp
        next
          assume "\<exists>p. last_node (cells h a) = Some p \<and> h' = set_next h p None"
          then obtain p where p: "last_node (cells h a) = Some p" and h': "h' = set_next h p None"
            by blast
          from excl Remove x False p have nb: "p \<notin> set (butlast bs)" by blast
          have "\<forall>b \<in> set bs. cells h' b = cells h b"
          proof
            fix b assume b: "b \<in> set bs"
            show "cells h' b = cells h b"
            proof (cases "b = p")
              case False
              then show ?thesis by (simp add: h' set_next_def)
            next
              case True
              with b nb have "bs \<noteq> []" and "p = last bs"
                using not_butlast_is_last[of p bs] by blast+
              with Double_inv_last_next[OF inv] have "next_node (cells h p) = None" by simp
              then have "(cells h p)\<lparr>next_node := None\<rparr> = cells h p"
                by (cases "cells h p") simp
              with True show ?thesis by (simp add: h' set_next_def)
            qed
          qed
          with L show ?thesis by (simp add: h' set_next_def)
        qed
      qed
    qed
  qed
qed

text \<open>
  Claim C6 as stated fails: in the list \<open>demo_stale\<close>, whose values are 1 and 3,
  \<open>remove\<close> given the node that was removed before raises \<open>AttributeError\<close>, and the values
  of the list are then 1 alone.
\<close>

theorem Double_remove_stale_node_changes_list:
  "iter_values (fst demo_stale) (snd demo_stale) = Some [1, 3] \<and>
   raised (Double_remove (ByNode 1) (fst demo_stale) (snd demo_stale)) = Some AttributeError \<and>
   values_after (Double_remove (ByNode 1) (fst demo_stale) (snd demo_stale)) = Some [1]"
  by (simp add: demo_stale_def run_defs Double_remove_def Double_remove_node_def node_of_def
      raised_def values_after_def iter_values_def iter_def iter_from.simps)

text \<open>
  Claim C6, amended. For every call on either container that is given an index or a node
  and raises (an index out of range, a negative index other than \<open>-1\<close>, a slice, a node that
  is not in the list), the list after the raise is as before the call, with one exception:
  \<open>Double.remove\<close> given a node that is not in the list and whose \<open>last_node\<close> is a node of
  the list other than its last.

  For \<open>SinglyLinked\<close>, whatever the list: the list object (head, tail, length) and every
  node that existed before the call are unchanged, and so are the values whenever the
  traversal from \<open>head\<close> ends.

  For a well-formed \<open>Double\<close>, as every list built by calls with valid arguments is
  (\<open>Double_reachable_inv\<close>): the list object and every node of the list are unchanged, and
  so are the values and the reverse traversal.
\<close>

theorem failed_call_leaves_list:
  "(target c \<noteq> None \<and>
    SinglyLinked_call c (hs::'a Node heap) Ls = Some (Inl e, hs', Ls') \<longrightarrow>
      Ls' = Ls \<and> (\<forall>a. a < next_free hs \<longrightarrow> cells hs' a = cells hs a) \<and>
      (chain (cells hs) (head Ls) as None \<and> allocated hs as \<longrightarrow>
         iter_values hs' Ls' = iter_values hs Ls)) \<and>
   (target d \<noteq> None \<and> Double_inv (hb::'b DNode heap) Lb bs \<and>
    Double_call d hb Lb = Some (Inl e', hb', Lb') \<and>
    (\<forall>a p. d = Remove (ByNode a) \<and> a \<notin> set bs \<and> last_node (cells hb a) = Some p
       \<longrightarrow> p \<notin> set (butlast bs)) \<longrightarrow>
      Lb' = Lb \<and> (\<forall>b \<in> set bs. cells hb' b = cells hb b) \<and>
      iter_values hb' Lb' = iter_values hb Lb \<and>
      iter_reverse hb' Lb' = iter_reverse hb Lb)"
proof (rule conjI; rule impI)
  assume "target c \<noteq> None \<and> SinglyLinked_call c hs Ls = Some (Inl e, hs', Ls')"
  then have a: "SinglyLinked_call c hs Ls = Some (Inl e, hs', Ls')" by blast
  then have r: "Ls' = Ls" and u: "untouched hs hs'" by (blast dest: SinglyLinked_call_raise)+
  have "\<forall>a. a < next_free hs \<longrightarrow> cells hs' a = cells hs a"
    using untouched_below[OF u] by blast
  moreover have "chain (cells hs) (head Ls) as None \<and> allocated hs as \<longrightarrow>
      iter_values hs' Ls' = iter_values hs Ls"
    using r untouched_iter_values[OF u, of Ls as] by blast
  ultimately show "Ls' = Ls \<and> (\<forall>a. a < next_free hs \<longrightarrow> cells hs' a = cells hs a) \<and>
      (chain (cells hs) (head Ls) as None \<and> allocated hs as \<longrightarrow>
         iter_values hs' Ls' = iter_values hs Ls)"
    using r by blast
next
  assume a: "target d \<noteq> None \<and> Double_inv hb Lb bs \<and>
    Double_call d hb Lb = Some (Inl e', hb', Lb') \<and>
    (\<forall>a p. d = Remove (ByNode a) \<and> a \<notin> set bs \<and> last_node (cells hb a) = Some p
       \<longrightarrow> p \<notin> set (butlast bs))"
  then have inv: "Double_inv hb Lb bs"
    and call: "Double_call d hb Lb = Some (Inl e', hb', Lb')"
    and excl: "\<forall>a p. d = Remove (ByNode a) \<and> a \<notin> set bs \<and> last_node (cells hb a) = Some p
       \<longrightarrow> p \<notin> set (butlast bs)" by blast+
  from Double_call_raise[OF inv excl call] have L: "Lb' = Lb"
    and same: "\<forall>b \<in> set bs. cells hb' b = cells hb b" and free: "next_free hb \<le> next_free hb'"
    by blast+
  note inv' = same_cells_Double_inv[OF inv same free]
  have "iter_values hb' Lb = iter_values hb Lb"
    using Double_inv_iter[OF inv] Double_inv_iter[OF inv'(1)] inv'(2)
    by (simp add: iter_values_def values_of_def)
  moreover have "iter_reverse hb' Lb = iter_reverse hb Lb"
    using Double_inv_iter_reverse[OF inv] Double_inv_iter_reverse[OF inv'(1)] by simp
  ultimately show "Lb' = Lb \<and> (\<forall>b \<in> set bs. cells hb' b = cells hb b) \<and>
      iter_values hb' Lb' = iter_values hb Lb \<and>
      iter_reverse hb' Lb' = iter_reverse hb Lb"
    using L same by simp
qed

theorem failed_call_leaves_list_witness:
  "(target (Remove (ByIndex (Idx 7)) :: int call) = Some (ByIndex (Idx 7)) \<and>
    SinglyLinked_call (Remove (ByIndex (Idx 7))) (fst demo_single) (snd demo_single) =
      Some (Inl IndexError, fst demo_single, snd demo_single) \<and>
    chain (cells (fst demo_single)) (head (snd demo_single)) [0, 1, 2] None \<and>
    allocated (fst demo_single) [0, 1, 2] \<and>
    iter_values (fst demo_single) (snd demo_single) = Some [6, 5, 2]) \<and>
   (target (Remove (ByNode 0) :: int call) = Some (ByNode 0) \<and>
    Double_inv (fst demo_other) (snd demo_other) [3] \<and>
    last_node (cells (fst demo_other) 0) = None \<and>
    Double_call (Remove (ByNode 0)) (fst demo_other) (snd demo_other) =
      Some (Inl AttributeError, fst demo_other, snd demo_other) \<and>
    iter_values (fst demo_other) (snd demo_other) = Some [7] \<and>
    iter_reverse (fst demo_other) (snd demo_other) = Some [3])"
proof -
  have s1: "chain (cells (fst demo_single)) (head (snd demo_single)) [0, 1, 2] None"
    and s2: "allocated (fst demo_single) [0, 1, 2]"
    using demo_single_inv by (simp_all add: Single_inv_def)
  have s3: "SinglyLinked_call (Remove (ByIndex (Idx 7))) (fst demo_single) (snd demo_single) =
      Some (Inl IndexError, fst demo_single, snd demo_single)"
    using demo_single_inv
    by (simp add: SinglyLinked_call_def SinglyLinked_remove_def SinglyLinked_remove_by_index_def
        len_def Single_inv_def)
  have s4: "iter_values (fst demo_single) (snd demo_single) = Some [6, 5, 2]"
    using Single_inv_iter[OF demo_single_inv]
    by (simp add: iter_values_def) (simp add: demo_single_def run_defs)
  have d0: "last_node (cells (fst demo_other) 0) = None"
    by (simp add: demo_other_def demo_double_def run_defs)
  have d1: "\<forall>a p. Remove (ByNode 0) = (Remove (ByNode a) :: int call) \<and> a \<notin> set [3] \<and>
      last_node (cells (fst demo_other) a) = Some p \<longrightarrow> p \<notin> set (butlast [3])"
    by simp
  have d2: "Double_call (Remove (ByNode 0)) (fst demo_other) (snd demo_other) =
      Some (Inl AttributeError, fst demo_other, snd demo_other)"
    by (simp add: Double_call_def Double_remove_def node_of_def Double_remove_node_def
        demo_other_def demo_double_def run_defs)
  have d3: "iter_values (fst demo_other) (snd demo_other) = Some [7]"
    using Double_inv_iter[OF demo_other_inv]
    by (simp add: iter_values_def) (simp add: demo_other_def demo_double_def run_defs)
  have d4: "iter_reverse (fst demo_other) (snd demo_other) = Some [3]"
    using Double_inv_iter_reverse[OF demo_other_inv] by simp
  from failed_call_leaves_list[of "Remove (ByIndex (Idx 7))" "fst demo_single" "snd demo_single"
      IndexError "fst demo_single" "snd demo_single" "[0, 1, 2]"
      "Remove (ByNode 0)" "fst demo_other" "snd demo_other" "[3]" AttributeError
      "fst demo_other" "snd demo_other"]
    s1 s2 s3 s4 demo_other_inv d0 d1 d2 d3 d4
  show ?thesis by simp
qed

section \<open>Removal by node reference\<close>



section \<open>Further properties of well-formed lists\<close>

text \<open>The length of a reachable \<open>Double\<close> is the number of nodes of its traversal.\<close>

lemma Double_length_counts_nodes:
  assumes "Double_reachable h L"
  shows "\<exists>as. iter h L = Some as \<and> len L = Inr (int (length as))"
proof -
  from Double_reachable_inv[OF assms] obtain as where inv: "Double_inv h L as" ..
  with Double_inv_iter[OF inv] show ?thesis by (auto simp: Double_inv_def len_def)
qed

text \<open>\<open>Double.__eq__\<close> on two well-formed lists that are not empty compares the values in
  order.\<close>

lemma chain_last_is_tail:
  assumes "chain c (Some n) (n # ns) None"
  shows "(n = last (n # ns)) = (ns = [])"
proof -
  have "distinct (n # ns)" by (rule chain_distinct[OF assms])
  then show ?thesis by (cases ns) auto
qed

lemma eq_loop_chain:
  "chain (cells h) (Some n) (n # ns) None \<Longrightarrow> chain (cells h) (Some m) (m # ms) None \<Longrightarrow>
   tail A = Some (last (n # ns)) \<Longrightarrow> tail B = Some (last (m # ms)) \<Longrightarrow>
   eq_loop h A B (Some n) (Some m) = Some (Inr (values_of h (n # ns) = values_of h (m # ms)))"
proof (induction ns arbitrary: n m ms)
  case Nil
  from chain_last_is_tail[OF Nil.prems(2)] Nil.prems show ?case
    by (subst eq_loop.simps) (cases ms; auto simp: values_of_def get_next_def)
next
  case (Cons n' ns')
  from Cons.prems(1) have nx: "next_node (cells h n) = Some n'"
    and c1: "chain (cells h) (Some n') (n' # ns') None" by auto
  from chain_last_is_tail[OF Cons.prems(1)] have nt: "Some n \<noteq> tail A"
    using Cons.prems(3) by auto
  show ?case
  proof (cases ms)
    case Nil
    with Cons.prems(2,4) nx nt show ?thesis
      by (subst eq_loop.simps) (auto simp: values_of_def get_next_def)
  next
    case (Cons m' ms')
    with Cons.prems(2) have mx: "next_node (cells h m) = Some m'"
      and c2: "chain (cells h) (Some m') (m' # ms') None" by auto
    have "eq_loop h A B (Some n') (Some m') =
        Some (Inr (values_of h (n' # ns') = values_of h (m' # ms')))"
      using Cons.IH[OF c1 c2] Cons.prems(3,4) Cons by simp
    with nx mx nt show ?thesis unfolding Cons
      by (subst eq_loop.simps) (auto simp: values_of_def get_next_def)
  qed
qed

lemma Double_eq_nonempty:
  assumes A: "Double_inv h A as" and B: "Double_inv h B bs" and ne: "as \<noteq> []" "bs \<noteq> []"
  shows "Double_eq h A (A_list B) = Some (Inr (values_of h as = values_of h bs))"
proof -
  from ne obtain n ns m ms where as: "as = n # ns" and bs: "bs = m # ms"
    by (cases as; cases bs) auto
  have cA: "chain (cells h) (head A) (n # ns) None" and tA: "tail A = Some (last (n # ns))"
    using A as by (auto simp: Double_inv_def last_ref_def dest: dseg_chain)
  have cB: "chain (cells h) (head B) (m # ms) None" and tB: "tail B = Some (last (m # ms))"
    using B bs by (auto simp: Double_inv_def last_ref_def dest: dseg_chain)
  from cA have hA: "head A = Some n" by simp
  from cB have hB: "head B = Some m" by simp
  from eq_loop_chain[OF cA[unfolded hA] cB[unfolded hB] tA tB] show ?thesis
    by (simp add: Double_eq_def hA hB as bs)
qed

text \<open>\<open>remove\<close> by index on well-formed lists: an index that is at least the length, or
  below \<open>-1\<close>, raises \<open>IndexError\<close> (for \<open>SinglyLinked\<close>, except index 0 on the empty list), and
  \<open>-1\<close> removes the last node.\<close>

lemma Double_remove_index_errors:
  assumes inv: "Double_inv h L as" and bad: "int (length as) \<le> i \<or> i < - 1"
  shows "Double_remove (ByIndex (Idx i)) h L = Some (Inl IndexError, h, L)"
proof -
  have c: "chain (cells h) (head L) as None" and t: "tail L = last_ref None as"
    using inv by (auto simp: Double_inv_def dest: dseg_chain)
  from getitem_chain[OF c t, of i] bad show ?thesis
    by (auto simp: Double_remove_def node_of_def)
qed

lemma Double_remove_last:
  assumes inv: "Double_inv h L (xs @ [a])"
  shows "\<exists>h' L'. Double_remove (ByIndex (Idx (- 1))) h L = Some (Inr (), h', L') \<and>
           Double_inv h' L' xs"
proof -
  have c: "chain (cells h) (head L) (xs @ [a]) None" and t: "tail L = last_ref None (xs @ [a])"
    using inv by (auto simp: Double_inv_def dest: dseg_chain)
  from getitem_chain[OF c t, of "- 1"] have "node_of h L (ByIndex (Idx (- 1))) = Some (Inr a)"
    by (simp add: node_of_def)
  with Double_remove_node_inv[OF inv] show ?thesis by (auto simp: Double_remove_def)
qed

lemma SinglyLinked_remove_index_errors:
  assumes inv: "Single_inv h L as" and bad: "int (length as) \<le> i \<or> i < - 1"
    and other: "\<not> (i = 0 \<and> as = [])"
  shows "SinglyLinked_remove (ByIndex (Idx i)) h L = Some (Inl IndexError, h, L)"
proof -
  have c: "chain (cells h) (head L) as None" and t: "tail L = last_ref None as"
    and n: "length_attr L = int (length as)"
    using inv by (auto simp: Single_inv_def)
  show ?thesis
  proof (cases "i < - 1")
    case True
    then have "getitem h L (Idx (i - 1)) = Some (Inl IndexError)"
      using getitem_chain[OF c t, of "i - 1"] by auto
    with True n show ?thesis
      by (auto simp: SinglyLinked_remove_def SinglyLinked_remove_by_index_def len_def Let_def)
  next
    case False
    with bad other n show ?thesis
      by (auto simp: SinglyLinked_remove_def SinglyLinked_remove_by_index_def len_def Let_def)
  qed
qed

lemma SinglyLinked_remove_last:
  assumes inv: "Single_inv h L (xs @ [a])"
  shows "\<exists>h' L'. SinglyLinked_remove (ByIndex (Idx (- 1))) h L = Some (Inr (), h', L') \<and>
           Single_inv h' L' xs"
proof (cases xs rule: rev_cases)
  case Nil
  with inv show ?thesis
    by (auto simp: Single_inv_def SinglyLinked_remove_def SinglyLinked_remove_by_index_def
        len_def Let_def last_ref_def allocated_def)
next
  case (snoc ws p)
  have c: "chain (cells h) (head L) (ws @ [p, a]) None"
    and t: "tail L = last_ref None (ws @ [p, a])"
    and n: "length_attr L = int (length ws) + 2"
    using inv snoc by (auto simp: Single_inv_def)
  have d: "distinct (ws @ [p, a])" by (rule chain_distinct[OF c])
  have g: "getitem h L (Idx (int (length ws))) = Some (Inr p)"
    using getitem_chain[OF c t, of "int (length ws)"] by (simp add: nth_append)
  have nx: "next_node (cells h p) = Some a" and na: "next_node (cells h a) = None"
    using c by (auto simp: chain_append)
  show ?thesis using inv snoc d g nx na n
    by (auto simp: Single_inv_def SinglyLinked_remove_def SinglyLinked_remove_by_index_def
        len_def Let_def last_ref_def allocated_def get_next_def set_next_def chain_append)
qed

section \<open>Evaluations\<close>

text \<open>
  Claim C1. In \<open>L = SinglyLinked(1); L.insert_after(L.tail, 2)\<close> the new node is the last of
  the chain (the values are 1, 2), but \<open>tail\<close> is still the old node: \<open>L[-1]\<close> is the node
  holding 1, and a following \<open>append_tail(3)\<close> links its node after the old tail, so that
  the values are 1, 3. (\<open>Double.insert_after\<close> moves \<open>tail\<close>.)
\<close>

theorem SinglyLinked_insert_after_tail_stale:
  "\<exists>h1 L1 h2 L2.
     SinglyLinked_init [1] heap0 = (Inr (), h1, L1) \<and> tail L1 = Some 0 \<and>
     SinglyLinked_insert_after (ByNode 0) 2 h1 L1 = Some (Inr (), h2, L2) \<and>
     iter_values h2 L2 = Some [1, 2] \<and> tail L2 = Some 0 \<and>
     getitem h2 L2 (Idx (- 1)) = Some (Inr 0) \<and> node_value (cells h2 0) = 1 \<and>
     (\<exists>h3 L3. SinglyLinked_append_tail 3 h2 L2 = (Inr (), h3, L3) \<and>
        iter_values h3 L3 = Some [1, 3])"
  by (simp add: SinglyLinked_init_def SinglyLinked_append_tail_def SinglyLinked_insert_after_def
      heap_ops Let_def empty_list_def heap0_def iter_values_def iter_def iter_from.simps getitem_def)

text \<open>
  Claim C2. \<open>Double() == Double()\<close> raises \<open>AttributeError\<close>: the loop reads \<open>node.value\<close> where
  \<open>node\<close> is the \<open>head\<close> of an empty list.
\<close>

theorem Double_eq_empty_lists_raises:
  "Double_eq dheap0 empty_list (A_list empty_list) = Some (Inl AttributeError)"
  by (simp add: Double_eq_def eq_loop.simps empty_list_def)

text \<open>
  Claim C3. After \<open>L = SinglyLinked(1); L.insert_after(0, 2); L.append_tail(3)\<close> the length
  is 3 and the traversal from \<open>head\<close> visits two nodes.
\<close>

theorem SinglyLinked_length_counts_lost_node:
  "\<exists>h1 L1 h2 L2 h3 L3.
     SinglyLinked_init [1] heap0 = (Inr (), h1, L1) \<and>
     SinglyLinked_insert_after (ByIndex (Idx 0)) 2 h1 L1 = Some (Inr (), h2, L2) \<and>
     SinglyLinked_append_tail 3 h2 L2 = (Inr (), h3, L3) \<and>
     len L3 = Inr 3 \<and> iter h3 L3 = Some [0, 2] \<and> iter_values h3 L3 = Some [1, 3]"
  by (simp add: SinglyLinked_init_def SinglyLinked_append_tail_def SinglyLinked_insert_after_def
      heap_ops Let_def empty_list_def heap0_def iter_values_def iter_def iter_from.simps getitem_def
      enumerate_find.simps len_def)

text \<open>
  Claim C5. \<open>SinglyLinked().remove(0)\<close> raises \<open>AttributeError\<close>, where \<open>Double().remove(0)\<close>
  raises \<open>IndexError\<close>.
\<close>

theorem SinglyLinked_remove_first_of_empty:
  "SinglyLinked_remove (ByIndex (Idx 0)) heap0 empty_list =
     Some (Inl AttributeError, heap0, empty_list) \<and>
   Double_remove (ByIndex (Idx 0)) dheap0 empty_list = Some (Inl IndexError, dheap0, empty_list)"
  by (simp add: SinglyLinked_remove_def SinglyLinked_remove_by_index_def len_def empty_list_def
      Double_remove_def node_of_def getitem_def enumerate_find.simps)

text \<open>
  Claim C9. After \<open>L = SinglyLinked(1); L.insert_after(0, 2)\<close> the values are 1, 2 and the
  length is 2, but \<open>tail\<close> is still the first node: \<open>L[-1] = 9\<close> stores 9 at position 0 and
  the values are 9, 2. After a further \<open>L.append_tail(3)\<close> the length is 3 and \<open>L[2] = 9\<close>
  raises \<open>IndexError\<close>.
\<close>

theorem SinglyLinked_setitem_stale_tail:
  "\<exists>h1 L1 h2 L2 h3 h4 L4.
     SinglyLinked_init [1] heap0 = (Inr (), h1, L1) \<and>
     SinglyLinked_insert_after (ByIndex (Idx 0)) 2 h1 L1 = Some (Inr (), h2, L2) \<and>
     len L2 = Inr 2 \<and> iter_values h2 L2 = Some [1, 2] \<and>
     setitem h2 L2 (Idx (- 1)) 9 = Some (Inr (), h3, L2) \<and>
     iter_values h3 L2 = Some [9, 2] \<and>
     SinglyLinked_append_tail 3 h2 L2 = (Inr (), h4, L4) \<and>
     len L4 = Inr 3 \<and>
     setitem h4 L4 (Idx 2) 9 = Some (Inl IndexError, h4, L4)"
  by (simp add: SinglyLinked_init_def SinglyLinked_append_tail_def SinglyLinked_insert_after_def
      heap_ops Let_def empty_list_def heap0_def iter_values_def iter_def iter_from.simps getitem_def
      setitem_def enumerate_find.simps len_def)

section \<open>Comparison of nodes\<close>




end
